theory Spec2Isabelle
  imports Main "HOL-Library.Sublist"
begin

section \<open>Device Farm automation script: \<^verbatim>\<open>automate_device_farm.py\<close>\<close>

text \<open>
  The script drives a remote device-testing service and rearranges the files it downloads.
  The model makes the script's environment explicit:
  \<^item> text and bytes are \<^typ>\<open>string\<close>; a character stands for the code point of the same
    number (0 to 255). A file's content is the text that reading it yields: the UTF-8
    decoding and newline translation of Python's text mode are not modelled;
  \<^item> the file system is the working directory of the process and a map from locations to
    contents. A location is the list of names that leads from the root to a file; a path
    is resolved to its location as the operating system does it: a relative path starts at
    the working directory, empty names and \<^verbatim>\<open>.\<close> are skipped, and \<^verbatim>\<open>..\<close> goes up one
    directory. Directories are implicit (every directory that a path goes through exists)
    and there are no symbolic links;
  \<^item> every exception of the source is a value of \<open>exn\<close>, results are \<open>exn + 'a\<close>;
  \<^item> the answers of the remote service are data given to the functions.
\<close>

subsection \<open>Strings and \<^verbatim>\<open>posixpath\<close>\<close>

definition slash :: char where
  "slash = CHR ''/''"

definition backslash :: char where
  "backslash = CHR 0x5C"

text \<open>\<^verbatim>\<open>s.endswith(suf)\<close>\<close>

definition endswith :: "string \<Rightarrow> string \<Rightarrow> bool" where
  "endswith s suf = suffix suf s"

text \<open>\<^verbatim>\<open>s.__contains__(sub)\<close>: \<open>sub\<close> occurs in \<open>s\<close> as a contiguous substring.\<close>

fun contains :: "string \<Rightarrow> string \<Rightarrow> bool" where
  "contains [] sub = (sub = [])"
| "contains (c # cs) sub = (prefix sub (c # cs) \<or> contains cs sub)"

text \<open>\<^verbatim>\<open>s.rstrip('/')\<close>\<close>

definition rstrip_slash :: "string \<Rightarrow> string" where
  "rstrip_slash s = rev (dropWhile (\<lambda>c. c = slash) (rev s))"

text \<open>\<^verbatim>\<open>p[:p.rfind('/') + 1]\<close>: the longest prefix of \<open>p\<close> that is empty or ends in a slash.\<close>

definition head_part :: "string \<Rightarrow> string" where
  "head_part p = rev (dropWhile (\<lambda>c. c \<noteq> slash) (rev p))"

text \<open>
  \<^verbatim>\<open>
  def dirname(p):
      i = p.rfind('/') + 1
      head = p[:i]
      if head and head != '/'*len(head):
          head = head.rstrip('/')
      return head
  \<close>
\<close>

definition dirname :: "string \<Rightarrow> string" where
  "dirname p =
     (let head = head_part p
      in if head \<noteq> [] \<and> (\<exists>c \<in> set head. c \<noteq> slash) then rstrip_slash head else head)"

text \<open>\<^verbatim>\<open>def basename(p): i = p.rfind('/') + 1; return p[i:]\<close>\<close>

definition basename :: "string \<Rightarrow> string" where
  "basename p = rev (takeWhile (\<lambda>c. c \<noteq> slash) (rev p))"

text \<open>
  \<^verbatim>\<open>os.path.join(a, b)\<close> for two components:
  \<^verbatim>\<open>
      if b.startswith('/'): path = b
      elif not path or path.endswith('/'): path += b
      else: path += '/' + b
  \<close>
\<close>

definition join :: "string \<Rightarrow> string \<Rightarrow> string" where
  "join a b =
     (if b \<noteq> [] \<and> hd b = slash then b
      else if a = [] \<or> last a = slash then a @ b
      else a @ [slash] @ b)"

subsection \<open>\<^verbatim>\<open>re.sub(r'\bTestShopping\b', repl, content)\<close>\<close>

text \<open>
  The pattern is a \<open>str\<close> pattern, so \<^verbatim>\<open>\b\<close> uses the Unicode notion of a word character:
  \<^verbatim>\<open>ch.isalnum() or ch == '_'\<close>. Below 256 these are the ASCII letters and digits, the
  underscore, and the letters and numeric characters of Latin-1.
\<close>

definition is_word_char :: "char \<Rightarrow> bool" where
  "is_word_char c =
     (let n = (of_char c :: nat)
      in (48 \<le> n \<and> n \<le> 57) \<or> (65 \<le> n \<and> n \<le> 90) \<or> n = 95 \<or> (97 \<le> n \<and> n \<le> 122)
         \<or> n = 170 \<or> n = 178 \<or> n = 179 \<or> n = 181 \<or> n = 185 \<or> n = 186
         \<or> (188 \<le> n \<and> n \<le> 190) \<or> (192 \<le> n \<and> n \<le> 214) \<or> (216 \<le> n \<and> n \<le> 246)
         \<or> 248 \<le> n)"

definition test_name :: string where
  "test_name = ''TestShopping''"

text \<open>
  The pattern matches at the front of \<open>s\<close>, where \<open>pw\<close> tells whether the character before
  \<open>s\<close> is a word character (false at the start of the text): a word boundary, the literal,
  a word boundary.
\<close>

definition matches_here :: "bool \<Rightarrow> string \<Rightarrow> bool" where
  "matches_here pw s =
     (\<not> pw \<and> prefix test_name s
      \<and> (case drop (length test_name) s of [] \<Rightarrow> True | d # _ \<Rightarrow> \<not> is_word_char d))"

text \<open>
  The scan of \<^verbatim>\<open>re.sub\<close>: leftmost matches, not overlapping; \<open>new\<close> is put in place of each
  match and the text between the matches is copied.
\<close>

function sub_scan :: "string \<Rightarrow> bool \<Rightarrow> string \<Rightarrow> string" where
  "sub_scan new pw [] = []"
| "sub_scan new pw (c # cs) =
     (if matches_here pw (c # cs)
      then new @ sub_scan new True (drop (length test_name) (c # cs))
      else c # sub_scan new (is_word_char c) cs)"
  by pat_completeness auto
termination
  by (relation "measure (\<lambda>(new, pw, s). length s)") (auto simp: test_name_def)

subsection \<open>The replacement template of \<^verbatim>\<open>re.sub\<close>\<close>

text \<open>
  Every exception the model can raise. \<open>Exception\<close> carries the message of
  \<^verbatim>\<open>raise Exception(...)\<close>; \<open>ClientError\<close> stands for whatever a call of the remote client or
  of the HTTP library raises; \<open>TemplateError\<close> stands for what \<^verbatim>\<open>re.sub\<close> raises on a
  replacement template it rejects. \<open>KeyboardInterrupt\<close> (the user interrupts the script while
  a call is under way) and \<open>SystemExit\<close> are the two that are not of the class \<^verbatim>\<open>Exception\<close>.
\<close>

datatype exn =
    Exception string
  | KeyError string
  | ClientError string
  | FileNotFoundError string
  | BadZipFile
  | TemplateError
  | KeyboardInterrupt
  | SystemExit nat


definition is_digit :: "char \<Rightarrow> bool" where
  "is_digit c = (48 \<le> (of_char c :: nat) \<and> (of_char c :: nat) \<le> 57)"

definition is_octdigit :: "char \<Rightarrow> bool" where
  "is_octdigit c = (48 \<le> (of_char c :: nat) \<and> (of_char c :: nat) \<le> 55)"

definition is_ascii_letter :: "char \<Rightarrow> bool" where
  "is_ascii_letter c =
     (let n = (of_char c :: nat) in (65 \<le> n \<and> n \<le> 90) \<or> (97 \<le> n \<and> n \<le> 122))"

text \<open>\<^verbatim>\<open>int(digits, 8)\<close> for a string of octal digits.\<close>

definition octal_value :: "string \<Rightarrow> nat" where
  "octal_value ds = foldl (\<lambda>v c. 8 * v + ((of_char c :: nat) - 48)) 0 ds"

text \<open>The table \<^verbatim>\<open>ESCAPES\<close> of the template parser: \<^verbatim>\<open>\a \b \f \n \r \t \v \\\<close>.\<close>

definition escape_of :: "char \<Rightarrow> char option" where
  "escape_of d =
     (if d = CHR ''a'' then Some (CHR 0x07)
      else if d = CHR ''b'' then Some (CHR 0x08)
      else if d = CHR ''f'' then Some (CHR 0x0C)
      else if d = CHR ''n'' then Some (CHR 0x0A)
      else if d = CHR ''r'' then Some (CHR 0x0D)
      else if d = CHR ''t'' then Some (CHR 0x09)
      else if d = CHR ''v'' then Some (CHR 0x0B)
      else if d = backslash then Some backslash
      else None)"

text \<open>
  One escape of the template, as \<^verbatim>\<open>parse_template\<close> of CPython 3.12 reads it for a pattern
  with no group of its own: \<open>d\<close> is the character after the backslash, \<open>ds\<close> what follows,
  \<open>m\<close> the matched text (group 0). The result is the text the escape stands for and the
  number of characters of \<open>ds\<close> it uses.
  \<^item> \<^verbatim>\<open>\g<0>\<close> (any number of zeros) is the matched text; every other \<^verbatim>\<open>\g\<close> is rejected;
  \<^item> \<^verbatim>\<open>\0\<close> with up to two more octal digits, and three octal digits, are a character;
  \<^item> any other digit is a reference to a group the pattern does not have;
  \<^item> an escape of the table is its character, another ASCII letter is rejected, and any
    other character is kept with its backslash.
\<close>

definition template_escape :: "string \<Rightarrow> char \<Rightarrow> string \<Rightarrow> exn + (string \<times> nat)" where
  "template_escape m d ds =
     (if d = CHR ''g'' then
        (case ds of
           [] \<Rightarrow> Inl TemplateError
         | e # es \<Rightarrow>
             (let name = takeWhile (\<lambda>c. c \<noteq> CHR ''>'') es
              in if e = CHR ''<'' \<and> CHR ''>'' \<in> set es \<and> name \<noteq> []
                    \<and> (\<forall>c \<in> set name. c = CHR ''0'')
                 then Inr (m, length name + 2)
                 else Inl TemplateError))
      else if d = CHR ''0'' then
        (let oct = takeWhile is_octdigit (take 2 ds)
         in Inr ([char_of (octal_value oct mod 256)], length oct))
      else if is_digit d then
        (case ds of
           d2 # d3 # _ \<Rightarrow>
             if is_octdigit d \<and> is_octdigit d2 \<and> is_octdigit d3
             then (if octal_value [d, d2, d3] > 255 then Inl TemplateError
                   else Inr ([char_of (octal_value [d, d2, d3])], 2))
             else Inl TemplateError
         | _ \<Rightarrow> Inl TemplateError)
      else
        (case escape_of d of
           Some x \<Rightarrow> Inr ([x], 0)
         | None \<Rightarrow> if is_ascii_letter d then Inl TemplateError else Inr ([backslash, d], 0)))"

text \<open>
  The whole template: characters other than a backslash stand for themselves, a backslash
  at the very end is rejected.
\<close>

function parse_template :: "string \<Rightarrow> string \<Rightarrow> exn + string" where
  "parse_template m [] = Inr []"
| "parse_template m (c # cs) =
     (if c \<noteq> backslash
      then (case parse_template m cs of Inl e \<Rightarrow> Inl e | Inr r \<Rightarrow> Inr (c # r))
      else
        (case cs of
           [] \<Rightarrow> Inl TemplateError
         | d # ds \<Rightarrow>
             (case template_escape m d ds of
                Inl e \<Rightarrow> Inl e
              | Inr (out, k) \<Rightarrow>
                  (case parse_template m (drop k ds) of
                     Inl e \<Rightarrow> Inl e
                   | Inr r \<Rightarrow> Inr (out @ r)))))"
  by pat_completeness auto
termination
  by (relation "measure (\<lambda>(m, s). length s)") auto

text \<open>
  \<^verbatim>\<open>re.sub(r'\bTestShopping\b', repl, content)\<close>: the template is compiled first (and may
  raise, whether or not the text has a match); every match is the literal
  \<^verbatim>\<open>TestShopping\<close>, which is what group 0 stands for.
\<close>

definition re_sub :: "string \<Rightarrow> string \<Rightarrow> exn + string" where
  "re_sub repl content =
     (case parse_template test_name repl of
        Inl e \<Rightarrow> Inl e
      | Inr new \<Rightarrow> Inr (sub_scan new False content))"

subsection \<open>Files and zip archives\<close>

type_synonym path = string

text \<open>The names that lead from the root to a file.\<close>

type_synonym location = "string list"

text \<open>\<^verbatim>\<open>p.split('/')\<close>\<close>

fun split_path :: "string \<Rightarrow> string list" where
  "split_path [] = [[]]"
| "split_path (c # cs) =
     (if c = slash then [] # split_path cs
      else (case split_path cs of [] \<Rightarrow> [[c]] | x # xs \<Rightarrow> (c # x) # xs))"

text \<open>
  One name of a path, from the directory \<open>here\<close>: an empty name and \<^verbatim>\<open>.\<close> stay, \<^verbatim>\<open>..\<close> goes to
  the parent (the root is its own parent), any other name goes down.
\<close>

definition walk :: "location \<Rightarrow> string \<Rightarrow> location" where
  "walk here name =
     (if name = [] \<or> name = ''.'' then here
      else if name = ''..'' then butlast here
      else here @ [name])"

text \<open>
  The location that the path \<open>p\<close> names for a process whose working directory is \<open>wd\<close>: an
  absolute path starts at the root, any other path at the working directory.
\<close>

definition resolve :: "path \<Rightarrow> path \<Rightarrow> location" where
  "resolve wd p =
     foldl walk [] (split_path (if p \<noteq> [] \<and> hd p = slash then p else wd @ [slash] @ p))"

record filesystem =
  cwd :: path
  stored :: "location \<rightharpoonup> string"

text \<open>Reading, writing and removing the file that a path names.\<close>

definition read_file :: "filesystem \<Rightarrow> path \<Rightarrow> string option" where
  "read_file files p = stored files (resolve (cwd files) p)"

definition write_file :: "filesystem \<Rightarrow> path \<Rightarrow> string \<Rightarrow> filesystem" where
  "write_file files p data = files\<lparr>stored := (stored files)(resolve (cwd files) p \<mapsto> data)\<rparr>"

definition remove_file :: "filesystem \<Rightarrow> path \<Rightarrow> filesystem" where
  "remove_file files p = files\<lparr>stored := (stored files)(resolve (cwd files) p := None)\<rparr>"

text \<open>
  The decoder of \<^verbatim>\<open>zipfile\<close> is a parameter of the model: it gives the file members of an
  archive, each with the relative path under which \<^verbatim>\<open>extractall\<close> stores it (a member name
  without its leading slashes and without empty, \<^verbatim>\<open>.\<close> and \<^verbatim>\<open>..\<close> components) and its content,
  or nothing when the bytes are not a zip archive.
\<close>

type_synonym unzipper = "string \<Rightarrow> (path \<times> string) list option"

text \<open>
  \<^verbatim>\<open>zip_ref.extractall(target)\<close>: every member is written to the file that the target
  directory joined with the member's path names.
\<close>

definition extractall :: "filesystem \<Rightarrow> path \<Rightarrow> (path \<times> string) list \<Rightarrow> filesystem" where
  "extractall files target members =
     foldl (\<lambda>f (name, data). write_file f (join target name) data) files members"

definition report_member :: path where
  "report_member = ''/Host_Machine_Files/$DEVICEFARM_LOG_DIR/junitreport.xml''"

definition skipped_marker :: string where
  \<open>skipped_marker = ''skipped="2"''\<close>

subsection \<open>\<^verbatim>\<open>unzip_and_copy\<close>\<close>

text \<open>The paths that \<^verbatim>\<open>unzip_and_copy\<close> computes from \<open>zip_path\<close>.\<close>

definition origin_path :: "path \<Rightarrow> path" where
  "origin_path zip_path = dirname zip_path @ report_member"

definition device_name :: "path \<Rightarrow> string" where
  "device_name zip_path = basename (dirname zip_path)"

definition rename_path :: "path \<Rightarrow> path" where
  "rename_path zip_path =
     dirname (origin_path zip_path) @ ''/'' @ device_name zip_path @ '' appium junitreport.xml''"

definition report_path :: "path \<Rightarrow> path" where
  "report_path zip_path = dirname (dirname (dirname zip_path)) @ ''/report/''"

text \<open>
  \<^verbatim>\<open>shutil.copy(rename_path, report_path)\<close> copies into the directory \<open>report_path\<close> and
  returns the path of the copy.
\<close>

definition result_path :: "path \<Rightarrow> path" where
  "result_path zip_path = join (report_path zip_path) (basename (rename_path zip_path))"

text \<open>The label that takes the place of the test name.\<close>

definition label :: "path \<Rightarrow> string" where
  "label zip_path = ''AppiumTest '' @ device_name zip_path"

text \<open>
  \<^verbatim>\<open>unzip_and_copy(zip_path)\<close> on the file system \<open>files\<close>. It returns the validity flag and
  the new file system, or the exception that ends it: the archive is missing or is not a zip
  archive, the report is not where \<^verbatim>\<open>os.rename\<close> looks for it, or \<^verbatim>\<open>re.sub\<close> rejects the
  replacement.
\<close>

definition unzip_and_copy :: "unzipper \<Rightarrow> filesystem \<Rightarrow> path \<Rightarrow> exn + (bool \<times> filesystem)" where
  "unzip_and_copy unzip files zip_path =
     (case read_file files zip_path of
        None \<Rightarrow> Inl (FileNotFoundError zip_path)
      | Some bytes \<Rightarrow>
      (case unzip bytes of
        None \<Rightarrow> Inl BadZipFile
      | Some members \<Rightarrow>
      (let extracted = extractall files (dirname zip_path) members
       in case read_file extracted (origin_path zip_path) of
            None \<Rightarrow> Inl (FileNotFoundError (origin_path zip_path))
          | Some content \<Rightarrow>
          (let renamed = write_file (remove_file extracted (origin_path zip_path))
                           (rename_path zip_path) content;
               copied = write_file renamed (result_path zip_path) content
           in case re_sub (label zip_path) content of
                Inl e \<Rightarrow> Inl e
              | Inr modified_content \<Rightarrow>
                  Inr (\<not> contains content skipped_marker,
                       write_file copied (result_path zip_path) modified_content)))))"

subsection \<open>\<^verbatim>\<open>download_artifacts\<close>\<close>

text \<open>
  The answers of the remote service, as the script walks through them: the jobs of the run
  (\<^verbatim>\<open>list_jobs\<close>), for each job its suites (\<^verbatim>\<open>list_suites\<close>), for each suite its tests
  (\<^verbatim>\<open>list_tests\<close>), for each test and artifact category its artifacts (\<^verbatim>\<open>list_artifacts\<close>),
  and for each artifact the bytes that \<^verbatim>\<open>requests.get(artifact['url'])\<close> returns.
\<close>

record artifact =
  a_type :: string
  a_name :: string
  a_extension :: string
  a_url :: string
  a_content :: string

record test =
  t_arn :: string
  t_artifacts :: "string \<Rightarrow> artifact list"

record suite =
  s_name :: string
  s_arn :: string
  s_tests :: "test list"

record job =
  j_name :: string
  j_arn :: string
  j_suites :: "suite list"

text \<open>
  What the loops of \<^verbatim>\<open>download_artifacts\<close> change: the list \<^verbatim>\<open>logcat_paths\<close>, the file
  system, and the downloads made so far (the URL fetched and the file it was written to).
\<close>

record dl_state =
  logcat_paths :: "path list"
  files :: filesystem
  downloads :: "(string \<times> path) list"

definition artifact_types :: "string list" where
  "artifact_types = [''FILE'', ''SCREENSHOT'', ''LOG'']"

text \<open>\<^verbatim>\<open>filename = artifact['type'] + "_" + artifact['name'] + "." + artifact['extension']\<close>\<close>

definition filename :: "artifact \<Rightarrow> string" where
  "filename a = a_type a @ ''_'' @ a_name a @ ''.'' @ a_extension a"

definition is_logcat :: "artifact \<Rightarrow> bool" where
  "is_logcat a = endswith (filename a) ''.logcat''"

definition is_zip :: "artifact \<Rightarrow> bool" where
  "is_zip a = endswith (filename a) ''.zip''"

definition artifact_save_path :: "path \<Rightarrow> artifact \<Rightarrow> path" where
  "artifact_save_path path_to a = join path_to (filename a)"

text \<open>
  The body of \<^verbatim>\<open>for artifact in artifacts\<close>, on the flag \<^verbatim>\<open>is_valid_test\<close> and the state.
\<close>

definition artifact_step ::
  "unzipper \<Rightarrow> path \<Rightarrow> artifact \<Rightarrow> bool \<times> dl_state \<Rightarrow> exn + (bool \<times> dl_state)" where
  "artifact_step unzip path_to a vs =
     (case vs of (is_valid_test, st) \<Rightarrow>
        if is_logcat a \<or> is_zip a then
          (let st1 = (if is_valid_test \<and> is_logcat a
                      then st\<lparr>logcat_paths := logcat_paths st @ [artifact_save_path path_to a]\<rparr>
                      else st);
               st2 = st1\<lparr>downloads := downloads st1 @ [(a_url a, artifact_save_path path_to a)],
                          files := write_file (files st1) (artifact_save_path path_to a)
                                     (a_content a)\<rparr>
           in if is_zip a then
                (case unzip_and_copy unzip (files st2) (artifact_save_path path_to a) of
                   Inl e \<Rightarrow> Inl e
                 | Inr (valid, files') \<Rightarrow> Inr (valid, st2\<lparr>files := files'\<rparr>))
              else Inr (is_valid_test, st2))
        else Inr (is_valid_test, st))"

fun artifacts_loop ::
  "unzipper \<Rightarrow> path \<Rightarrow> artifact list \<Rightarrow> bool \<times> dl_state \<Rightarrow> exn + (bool \<times> dl_state)" where
  "artifacts_loop unzip path_to [] vs = Inr vs"
| "artifacts_loop unzip path_to (a # as) vs =
     (case artifact_step unzip path_to a vs of
        Inl e \<Rightarrow> Inl e
      | Inr vs' \<Rightarrow> artifacts_loop unzip path_to as vs')"

text \<open>
  \<^verbatim>\<open>for artifact_type in ['FILE', 'SCREENSHOT', 'LOG']\<close>: the artifacts of the category are
  listed, \<^verbatim>\<open>is_valid_test = True\<close> is set, and the artifacts are processed.
\<close>

fun types_loop :: "unzipper \<Rightarrow> path \<Rightarrow> test \<Rightarrow> string list \<Rightarrow> dl_state \<Rightarrow> exn + dl_state" where
  "types_loop unzip path_to t [] st = Inr st"
| "types_loop unzip path_to t (artifact_type # types) st =
     (case artifacts_loop unzip path_to (t_artifacts t artifact_type) (True, st) of
        Inl e \<Rightarrow> Inl e
      | Inr (is_valid_test, st') \<Rightarrow> types_loop unzip path_to t types st')"

fun tests_loop :: "unzipper \<Rightarrow> path \<Rightarrow> test list \<Rightarrow> dl_state \<Rightarrow> exn + dl_state" where
  "tests_loop unzip path_to [] st = Inr st"
| "tests_loop unzip path_to (t # ts) st =
     (case types_loop unzip path_to t artifact_types st of
        Inl e \<Rightarrow> Inl e
      | Inr st' \<Rightarrow> tests_loop unzip path_to ts st')"

fun suites_loop :: "unzipper \<Rightarrow> path \<Rightarrow> suite list \<Rightarrow> dl_state \<Rightarrow> exn + dl_state" where
  "suites_loop unzip path_to [] st = Inr st"
| "suites_loop unzip path_to (s # ss) st =
     (if s_name s = ''Tests Suite''
      then (case tests_loop unzip path_to (s_tests s) st of
              Inl e \<Rightarrow> Inl e
            | Inr st' \<Rightarrow> suites_loop unzip path_to ss st')
      else suites_loop unzip path_to ss st)"

fun jobs_loop :: "unzipper \<Rightarrow> path \<Rightarrow> job list \<Rightarrow> dl_state \<Rightarrow> exn + dl_state" where
  "jobs_loop unzip save_path [] st = Inr st"
| "jobs_loop unzip save_path (j # js) st =
     (case suites_loop unzip (join save_path (j_name j)) (j_suites j) st of
        Inl e \<Rightarrow> Inl e
      | Inr st' \<Rightarrow> jobs_loop unzip save_path js st')"

text \<open>
  \<^verbatim>\<open>download_artifacts(jobs_response, save_path)\<close> on the file system \<open>files0\<close>; the list it
  returns is \<open>logcat_paths\<close> of the final state.
\<close>

definition download_artifacts ::
  "unzipper \<Rightarrow> job list \<Rightarrow> path \<Rightarrow> filesystem \<Rightarrow> exn + dl_state" where
  "download_artifacts unzip jobs save_path files0 =
     jobs_loop unzip save_path jobs \<lparr>logcat_paths = [], files = files0, downloads = []\<rparr>"

subsection \<open>\<^verbatim>\<open>upload_df_file\<close>\<close>

text \<open>
  The requests the script makes and the pauses it takes, in the order they happen. The
  messages it prints are not part of the model.
\<close>

datatype event =
    CreateUpload string string
  | HttpPut string
  | Sleep nat
  | GetUpload string
  | ScheduleRun string string string
  | GetRun string
  | StopRun string
  | ListJobs string
  | ExitCall nat

text \<open>The \<^verbatim>\<open>response['upload']\<close> of \<^verbatim>\<open>create_upload\<close> and \<^verbatim>\<open>get_upload\<close>.\<close>

record upload =
  u_arn :: string
  u_url :: string
  u_status :: string
  u_message :: "string option"
  u_metadata :: "string option"

text \<open>The response of \<^verbatim>\<open>requests.put\<close>: \<^verbatim>\<open>put_req.ok\<close> and \<^verbatim>\<open>put_req.reason\<close>.\<close>

record http_response =
  ok :: bool
  reason :: string

text \<open>
  What the environment answers during one call of \<^verbatim>\<open>upload_df_file\<close>: to \<^verbatim>\<open>create_upload\<close>,
  to \<^verbatim>\<open>open(filename, 'rb')\<close>, to \<^verbatim>\<open>requests.put\<close>, and to the first, second, ...
  \<^verbatim>\<open>get_upload\<close>. Each answer is a value or the exception raised.
\<close>

record upload_env =
  create_upload :: "exn + upload"
  open_file :: "exn + string"
  put :: "exn + http_response"
  get_upload :: "nat \<Rightarrow> exn + upload"

text \<open>
  \<^verbatim>\<open>response['upload']['message'] if 'message' in response['upload']
    else response['upload']['metadata']\<close>
\<close>

definition failure_text :: "upload \<Rightarrow> exn + string" where
  "failure_text r =
     (case u_message r of
        Some m \<Rightarrow> Inr m
      | None \<Rightarrow> (case u_metadata r of Some d \<Rightarrow> Inr d | None \<Rightarrow> Inl (KeyError ''metadata'')))"

definition failed_prefix :: string where
  "failed_prefix = ''The upload failed processing. DeviceFarm says reason is: '' @ [CHR 0x0A]"

definition put_prefix :: string where
  "put_prefix = ''Couldn'' @ [CHR 0x27] @ ''t upload, requests said we'' @ [CHR 0x27]
     @ ''re not ok. Requests says: ''"

definition failed_exn :: "upload \<Rightarrow> exn" where
  "failed_exn r = (case failure_text r of Inl e \<Rightarrow> e | Inr m \<Rightarrow> Exception (failed_prefix @ m))"

text \<open>
  The loop \<^verbatim>\<open>while True\<close> of \<^verbatim>\<open>upload_df_file\<close>: \<open>response\<close> is the answer at hand, \<open>i\<close>
  counts the \<^verbatim>\<open>get_upload\<close> requests made so far, \<open>tr\<close> is the trace so far. The result is
  \<open>None\<close> when the loop runs forever.
\<close>

partial_function (option) upload_poll ::
  "(nat \<Rightarrow> exn + upload) \<Rightarrow> string \<Rightarrow> nat \<Rightarrow> upload \<Rightarrow> event list
     \<Rightarrow> ((exn + string) \<times> event list) option" where
  "upload_poll answers upload_arn i response tr =
     (if u_status response = ''FAILED'' then Some (Inl (failed_exn response), tr)
      else if u_status response = ''SUCCEEDED'' then Some (Inr upload_arn, tr)
      else
        (case answers i of
           Inl e \<Rightarrow> Some (Inl e, tr @ [Sleep 5, GetUpload upload_arn])
         | Inr response' \<Rightarrow>
             upload_poll answers upload_arn (Suc i) response'
               (tr @ [Sleep 5, GetUpload upload_arn])))"

definition upload_df_file ::
  "upload_env \<Rightarrow> string \<Rightarrow> path \<Rightarrow> string \<Rightarrow> event list
     \<Rightarrow> ((exn + string) \<times> event list) option" where
  "upload_df_file env unique file_name upload_type tr =
     (let tr1 = tr @ [CreateUpload (unique @ ''_'' @ basename file_name) upload_type]
      in case create_upload env of
           Inl e \<Rightarrow> Some (Inl e, tr1)
         | Inr response \<Rightarrow>
         (let upload_arn = u_arn response;
              upload_url = u_url response
          in case open_file env of
               Inl e \<Rightarrow> Some (Inl e, tr1)
             | Inr file_stream \<Rightarrow>
             (let tr2 = tr1 @ [HttpPut upload_url]
              in case put env of
                   Inl e \<Rightarrow> Some (Inl e, tr2)
                 | Inr put_req \<Rightarrow>
                     if \<not> ok put_req
                     then Some (Inl (Exception (put_prefix @ reason put_req)), tr2)
                     else upload_poll (get_upload env) upload_arn 0 response tr2)))"

subsection \<open>\<^verbatim>\<open>upload_and_test_android\<close>\<close>

text \<open>
  The loop \<^verbatim>\<open>while True\<close> inside \<^verbatim>\<open>try\<close>: \<open>answers i\<close> is what the \<open>i\<close>-th \<^verbatim>\<open>get_run\<close> gives,
  the status of the run or the exception raised. The loop ends with the status that made
  it \<^verbatim>\<open>break\<close>, or with the exception; the result is \<open>None\<close> when it runs forever.
\<close>

partial_function (option) run_poll ::
  "(nat \<Rightarrow> exn + string) \<Rightarrow> string \<Rightarrow> nat \<Rightarrow> event list
     \<Rightarrow> ((exn + string) \<times> event list) option" where
  "run_poll answers run_arn i tr =
     (case answers i of
        Inl e \<Rightarrow> Some (Inl e, tr @ [GetRun run_arn])
      | Inr state \<Rightarrow>
          if state = ''COMPLETED'' \<or> state = ''ERRORED''
          then Some (Inr state, tr @ [GetRun run_arn])
          else run_poll answers run_arn (Suc i) (tr @ [GetRun run_arn, Sleep 10]))"


text \<open>
  How the process ends when the call is all that the program does: with status 0 when the
  call returns, with the code given to \<^verbatim>\<open>exit\<close>, and, when an exception leaves the call, as
  the interpreter ends on an exception that nothing catches: with status 1 (after the
  traceback), with the code of a \<^verbatim>\<open>SystemExit\<close>, and killed by the signal \<^verbatim>\<open>SIGINT\<close> for a
  \<^verbatim>\<open>KeyboardInterrupt\<close>.
\<close>

datatype status = ExitStatus nat | Interrupted








subsection \<open>Notions used to state the properties\<close>

text \<open>
  The text cut into its maximal runs of word characters and of other characters. A whole
  word is a run of word characters.
\<close>

fun runs :: "string \<Rightarrow> string list" where
  "runs [] = []"
| "runs (c # cs) =
     (case runs cs of
        [] \<Rightarrow> [[c]]
      | r # rs \<Rightarrow> if is_word_char (hd r) = is_word_char c then (c # r) # rs else [c] # r # rs)"

definition relabel :: "string \<Rightarrow> string \<Rightarrow> string" where
  "relabel new w = (if w = test_name then new else w)"

text \<open>
  Every run that is exactly the test name becomes \<open>new\<close>; every other run, also a longer
  word that has the test name inside, stays as it is.
\<close>

definition replace_whole_words :: "string \<Rightarrow> string \<Rightarrow> string" where
  "replace_whole_words new s = concat (map (relabel new) (runs s))"

text \<open>The same for a text whose first run continues a word when \<open>pw\<close> holds.\<close>

definition scan_spec :: "string \<Rightarrow> bool \<Rightarrow> string \<Rightarrow> string" where
  "scan_spec new pw s =
     (case runs s of
        [] \<Rightarrow> []
      | r # rs \<Rightarrow> (if pw \<and> is_word_char (hd r) then r else relabel new r)
                  @ concat (map (relabel new) rs))"

text \<open>
  The artifacts that the script meets, in the order of its loops: per job the suites named
  \<^verbatim>\<open>Tests Suite\<close>, per suite its tests, per test the three categories.
\<close>

definition test_artifacts :: "test \<Rightarrow> artifact list" where
  "test_artifacts t = concat (map (t_artifacts t) artifact_types)"

definition suite_artifacts :: "suite \<Rightarrow> artifact list" where
  "suite_artifacts s = concat (map test_artifacts (s_tests s))"

definition job_artifacts :: "job \<Rightarrow> artifact list" where
  "job_artifacts j =
     concat (map suite_artifacts (filter (\<lambda>s. s_name s = ''Tests Suite'') (j_suites j)))"

definition wanted :: "artifact \<Rightarrow> bool" where
  "wanted a = (is_logcat a \<or> is_zip a)"

text \<open>The downloads to expect: the wanted artifacts met, each with its URL and its file.\<close>

definition fetches :: "path \<Rightarrow> artifact list \<Rightarrow> (string \<times> path) list" where
  "fetches path_to as = map (\<lambda>a. (a_url a, artifact_save_path path_to a)) (filter wanted as)"

definition expected_downloads :: "job list \<Rightarrow> path \<Rightarrow> (string \<times> path) list" where
  "expected_downloads jobs save_path =
     concat (map (\<lambda>j. fetches (join save_path (j_name j)) (job_artifacts j)) jobs)"

text \<open>The files of the logcat artifacts met.\<close>

definition logcat_files :: "path \<Rightarrow> artifact list \<Rightarrow> path list" where
  "logcat_files path_to as = map (artifact_save_path path_to) (filter is_logcat as)"

definition logcat_encounters :: "job list \<Rightarrow> path \<Rightarrow> path list" where
  "logcat_encounters jobs save_path =
     concat (map (\<lambda>j. logcat_files (join save_path (j_name j)) (job_artifacts j)) jobs)"

text \<open>
  The value of \<^verbatim>\<open>is_valid_test\<close> at the moment each artifact of a category is met, as the
  loop over the artifacts computes it.
\<close>

fun flags_met :: "unzipper \<Rightarrow> path \<Rightarrow> artifact list \<Rightarrow> bool \<times> dl_state \<Rightarrow> bool list" where
  "flags_met unzip path_to [] vs = []"
| "flags_met unzip path_to (a # as) vs =
     fst vs # (case artifact_step unzip path_to a vs of
                 Inl e \<Rightarrow> []
               | Inr vs' \<Rightarrow> flags_met unzip path_to as vs')"

text \<open>
  The answers that the loop of \<^verbatim>\<open>upload_df_file\<close> looks at: first the answer of
  \<^verbatim>\<open>create_upload\<close>, then those of \<^verbatim>\<open>get_upload\<close>.
\<close>

definition observed :: "upload \<Rightarrow> (nat \<Rightarrow> exn + upload) \<Rightarrow> nat \<Rightarrow> exn + upload" where
  "observed first answers n = (case n of 0 \<Rightarrow> Inr first | Suc k \<Rightarrow> answers k)"

definition pending :: "exn + upload \<Rightarrow> bool" where
  "pending x =
     (case x of Inl e \<Rightarrow> False | Inr r \<Rightarrow> u_status r \<noteq> ''FAILED'' \<and> u_status r \<noteq> ''SUCCEEDED'')"

definition has_status :: "string \<Rightarrow> exn + upload \<Rightarrow> bool" where
  "has_status s x = (case x of Inl e \<Rightarrow> False | Inr r \<Rightarrow> u_status r = s)"

text \<open>The trace of \<open>n\<close> rounds of a polling loop.\<close>

definition upload_rounds :: "string \<Rightarrow> nat \<Rightarrow> event list" where
  "upload_rounds upload_arn n = concat (replicate n [Sleep 5, GetUpload upload_arn])"

definition run_rounds :: "string \<Rightarrow> nat \<Rightarrow> event list" where
  "run_rounds run_arn n = concat (replicate n [GetRun run_arn, Sleep 10])"

definition terminal :: "string \<Rightarrow> bool" where
  "terminal state = (state = ''COMPLETED'' \<or> state = ''ERRORED'')"

text \<open>
  File systems for the examples: the working directory is \<^verbatim>\<open>/w\<close>, and there is no file, or
  one file.
\<close>

definition empty_disk :: filesystem where
  "empty_disk = \<lparr>cwd = ''/w'', stored = Map.empty\<rparr>"

definition disk_with :: "path \<Rightarrow> string \<Rightarrow> filesystem" where
  "disk_with p data = write_file empty_disk p data"

text \<open>A zip decoder for the examples: the bytes after \<^verbatim>\<open>PK\<close> are the report of the archive.\<close>

definition report_only :: unzipper where
  "report_only bytes =
     (if take 2 bytes = ''PK''
      then Some [(''Host_Machine_Files/$DEVICEFARM_LOG_DIR/junitreport.xml'', drop 2 bytes)]
      else None)"

text \<open>
  What a caller can see of \<^verbatim>\<open>unzip_and_copy\<close> once it has returned: the content of the report
  in the report directory.
\<close>

definition report_after :: "unzipper \<Rightarrow> filesystem \<Rightarrow> path \<Rightarrow> string option" where
  "report_after unzip files0 zip_path =
     (case unzip_and_copy unzip files0 zip_path of
        Inl e \<Rightarrow> None
      | Inr (valid, files') \<Rightarrow> read_file files' (result_path zip_path))"



text \<open>
  The directory in which the path \<open>p\<close> followed by a slash and further names is looked up:
  the root when \<open>p\<close> is empty, the location of \<open>p\<close> otherwise.
\<close>

definition below :: "path \<Rightarrow> path \<Rightarrow> location" where
  "below wd p = (if p = [] then [] else resolve wd p)"



text \<open>
  What a piece of the loops adds to the state when it has met the artifacts \<open>as\<close> of one job
  directory: the downloads of the wanted ones, and some of the logcat files, in their order.
\<close>

definition adds :: "path \<Rightarrow> artifact list \<Rightarrow> dl_state \<Rightarrow> dl_state \<Rightarrow> bool" where
  "adds path_to as st st' =
     (downloads st' = downloads st @ fetches path_to as
      \<and> (\<exists>xs. logcat_paths st' = logcat_paths st @ xs \<and> subseq xs (logcat_files path_to as)))"

definition adds_jobs :: "path \<Rightarrow> job list \<Rightarrow> dl_state \<Rightarrow> dl_state \<Rightarrow> bool" where
  "adds_jobs save_path jobs st st' =
     (downloads st' = downloads st @ expected_downloads jobs save_path
      \<and> (\<exists>xs. logcat_paths st' = logcat_paths st @ xs
             \<and> subseq xs (logcat_encounters jobs save_path)))"

text \<open>
  Every download made so far has left a file, and the name of that file ends in \<^verbatim>\<open>.logcat\<close>
  or \<^verbatim>\<open>.zip\<close>.
\<close>

definition saved :: "dl_state \<Rightarrow> bool" where
  "saved st =
     (\<forall>(url, file) \<in> set (downloads st).
        read_file (files st) file \<noteq> None
        \<and> (endswith file ''.logcat'' \<or> endswith file ''.zip''))"

text \<open>The logcat files that the loop over the artifacts of a category records.\<close>

definition recorded :: "unzipper \<Rightarrow> path \<Rightarrow> artifact list \<Rightarrow> bool \<times> dl_state \<Rightarrow> path list" where
  "recorded unzip path_to as vs =
     map (\<lambda>af. artifact_save_path path_to (fst af))
       (filter (\<lambda>af. snd af \<and> is_logcat (fst af)) (zip as (flags_met unzip path_to as vs)))"



text \<open>
  Example artifacts: a zip archive whose report has the marker of a skipped test, one whose
  report has not, a logcat file and a video.
\<close>

definition skipped_zip :: artifact where
  \<open>skipped_zip =
     \<lparr>a_type = ''CUSTOMER_ARTIFACT'', a_name = ''Customer Artifacts'', a_extension = ''zip'',
      a_url = ''https://host/1'',
      a_content = ''PK<testsuite name="TestShopping" skipped="2"/>''\<rparr>\<close>

definition passed_zip :: artifact where
  \<open>passed_zip =
     \<lparr>a_type = ''CUSTOMER_ARTIFACT'', a_name = ''Customer Artifacts'', a_extension = ''zip'',
      a_url = ''https://host/4'',
      a_content = ''PK<testsuite name="TestShopping" skipped="0"/>''\<rparr>\<close>

definition device_log :: artifact where
  "device_log =
     \<lparr>a_type = ''DEVICE_LOG'', a_name = ''Logcat'', a_extension = ''logcat'',
      a_url = ''https://host/2'', a_content = ''log''\<rparr>"

definition video :: artifact where
  "video =
     \<lparr>a_type = ''VIDEO'', a_name = ''Video'', a_extension = ''mp4'',
      a_url = ''https://host/3'', a_content = ''mp4''\<rparr>"

text \<open>A job with one suite of the given name, one test, and the given artifacts per category.\<close>

definition job_of :: "string \<Rightarrow> string \<Rightarrow> (string \<Rightarrow> artifact list) \<Rightarrow> job" where
  "job_of device suite_name arts =
     \<lparr>j_name = device, j_arn = ''arn:job'',
      j_suites = [\<lparr>s_name = suite_name, s_arn = ''arn:suite'',
                   s_tests = [\<lparr>t_arn = ''arn:test'', t_artifacts = arts\<rparr>]\<rparr>]\<rparr>"

text \<open>
  The zip archive and the logcat file in one category (with a video), and in two categories.
\<close>

definition together :: "string \<Rightarrow> artifact list" where
  "together ty = (if ty = ''FILE'' then [skipped_zip, device_log, video] else [])"

definition apart :: "string \<Rightarrow> artifact list" where
  "apart ty = (if ty = ''FILE'' then [skipped_zip] else if ty = ''LOG'' then [device_log] else [])"

text \<open>The list that \<^verbatim>\<open>download_artifacts\<close> returns, when it returns.\<close>

definition returned_paths ::
  "unzipper \<Rightarrow> job list \<Rightarrow> path \<Rightarrow> filesystem \<Rightarrow> path list option" where
  "returned_paths unzip jobs save_path files0 =
     (case download_artifacts unzip jobs save_path files0 of
        Inl e \<Rightarrow> None
      | Inr st \<Rightarrow> Some (logcat_paths st))"

text \<open>An answer to \<^verbatim>\<open>get_run\<close> after which the loop goes on: a status that is not final.\<close>

definition continues :: "exn + string \<Rightarrow> bool" where
  "continues x = (case x of Inl e \<Rightarrow> False | Inr state \<Rightarrow> \<not> terminal state)"

text \<open>
  How \<^verbatim>\<open>upload_df_file\<close> ends on an answer that is not pending: with the exception raised by
  the request, with the exception for a failed upload, or with the ARN.
\<close>

definition upload_end :: "string \<Rightarrow> exn + upload \<Rightarrow> exn + string" where
  "upload_end upload_arn x =
     (case x of
        Inl e \<Rightarrow> Inl e
      | Inr r \<Rightarrow> if u_status r = ''FAILED'' then Inl (failed_exn r) else Inr upload_arn)"

text \<open>
  An example environment: both uploads succeed at once, the run is scheduled, and the
  answers to \<^verbatim>\<open>get_run\<close> and \<^verbatim>\<open>stop_run\<close> are given.
\<close>

definition ready_upload :: "string \<Rightarrow> upload_env" where
  "ready_upload arn =
     \<lparr>create_upload = Inr \<lparr>u_arn = arn, u_url = ''https://upload/'' @ arn,
                             u_status = ''SUCCEEDED'', u_message = None, u_metadata = None\<rparr>,
      open_file = Inr ''bytes'',
      put = Inr \<lparr>ok = True, reason = ''OK''\<rparr>,
      get_upload = (\<lambda>i. Inl (ClientError ''not asked''))\<rparr>"



text \<open>
  An example upload that is not ready at once: the first answer has the status
  \<^verbatim>\<open>INITIALIZED\<close>, the next \<^verbatim>\<open>PROCESSING\<close>, and all later ones are \<open>final\<close>.
\<close>

definition upload_answer :: "string \<Rightarrow> string \<Rightarrow> string option \<Rightarrow> upload" where
  "upload_answer arn status message =
     \<lparr>u_arn = arn, u_url = ''https://upload/'' @ arn, u_status = status,
      u_message = message, u_metadata = None\<rparr>"

definition slow_upload :: "string \<Rightarrow> upload \<Rightarrow> upload_env" where
  "slow_upload arn final =
     \<lparr>create_upload = Inr (upload_answer arn ''INITIALIZED'' None),
      open_file = Inr ''bytes'',
      put = Inr \<lparr>ok = True, reason = ''OK''\<rparr>,
      get_upload = (\<lambda>i. if i < 1 then Inr (upload_answer arn ''PROCESSING'' None) else Inr final)\<rparr>"

text \<open>The trace of \<^verbatim>\<open>upload_df_file\<close> up to the loop.\<close>

definition upload_start :: "string \<Rightarrow> path \<Rightarrow> string \<Rightarrow> upload \<Rightarrow> event list" where
  "upload_start unique file_name upload_type response =
     [CreateUpload (unique @ ''_'' @ basename file_name) upload_type, HttpPut (u_url response)]"

section \<open>Properties\<close>

subsection \<open>Substrings and the replacement\<close>

lemma contains_iff: "contains s sub \<longleftrightarrow> (\<exists>p q. s = p @ sub @ q)"
proof (induction s)
  case Nil
  then show ?case by auto
next
  case (Cons c cs)
  show ?case
  proof
    assume "contains (c # cs) sub"
    then consider "prefix sub (c # cs)" | "contains cs sub" by auto
    then show "\<exists>p q. c # cs = p @ sub @ q"
    proof cases
      case 1
      then obtain q where "c # cs = sub @ q" by (auto simp: prefix_def)
      then have "c # cs = [] @ sub @ q" by simp
      then show ?thesis by blast
    next
      case 2
      with Cons.IH obtain p q where "cs = p @ sub @ q" by blast
      then have "c # cs = (c # p) @ sub @ q" by simp
      then show ?thesis by blast
    qed
  next
    assume "\<exists>p q. c # cs = p @ sub @ q"
    then obtain p q where eq: "c # cs = p @ sub @ q" by blast
    show "contains (c # cs) sub"
    proof (cases p)
      case Nil
      with eq have "prefix sub (c # cs)" by (simp add: prefix_def)
      then show ?thesis by simp
    next
      case (Cons d p')
      with eq have "cs = p' @ sub @ q" by simp
      with Cons.IH have "contains cs sub" by blast
      then show ?thesis by simp
    qed
  qed
qed

lemma parse_template_literal: "backslash \<notin> set s \<Longrightarrow> parse_template m s = Inr s"
  by (induction s) auto

lemma runs_Nil_iff: "runs s = [] \<longleftrightarrow> s = []"
  by (cases s) (auto split: list.splits)

lemma runs_hd: "runs s = r # rs \<Longrightarrow> r \<noteq> [] \<and> hd r = hd s"
  by (cases s) (auto split: list.splits if_splits)

lemma runs_split:
  "runs s = r # rs \<Longrightarrow>
     \<exists>rest. s = r @ rest \<and> (rest \<noteq> [] \<longrightarrow> is_word_char (hd rest) \<noteq> is_word_char (hd s))"
proof (induction s arbitrary: r rs)
  case Nil
  then show ?case by simp
next
  case (Cons c cs)
  show ?case
  proof (cases "runs cs")
    case Nil
    then have "cs = []" by (simp add: runs_Nil_iff)
    with Cons.prems have "r = [c]" by simp
    with \<open>cs = []\<close> show ?thesis by simp
  next
    case first: (Cons r' rs')
    from Cons.IH [OF first] obtain rest where
      split: "cs = r' @ rest" and
      bound: "rest \<noteq> [] \<longrightarrow> is_word_char (hd rest) \<noteq> is_word_char (hd cs)"
      by blast
    from runs_hd [OF first] have r': "r' \<noteq> []" "hd r' = hd cs" by simp_all
    show ?thesis
    proof (cases "is_word_char (hd r') = is_word_char c")
      case True
      with first Cons.prems have "r = c # r'" by simp
      then have "c # cs = r @ rest" using split by simp
      moreover have "rest \<noteq> [] \<longrightarrow> is_word_char (hd rest) \<noteq> is_word_char (hd (c # cs))"
        using bound r'(2) True by simp
      ultimately show ?thesis by blast
    next
      case False
      with first Cons.prems have "r = [c]" by simp
      then have "c # cs = r @ cs" by simp
      moreover have "cs \<noteq> [] \<longrightarrow> is_word_char (hd cs) \<noteq> is_word_char (hd (c # cs))"
        using False r'(2) by simp
      ultimately show ?thesis by blast
    qed
  qed
qed

lemma runs_word_run:
  "w \<noteq> [] \<Longrightarrow> \<forall>x \<in> set w. is_word_char x = b \<Longrightarrow> rest = [] \<or> is_word_char (hd rest) \<noteq> b \<Longrightarrow>
   runs (w @ rest) = w # runs rest"
proof (induction w)
  case Nil
  then show ?case by simp
next
  case (Cons c w)
  show ?case
  proof (cases w)
    case Nil
    show ?thesis
    proof (cases "runs rest")
      case Nil
      with \<open>w = []\<close> show ?thesis by simp
    next
      case (Cons r rs)
      from runs_hd [OF this] have "hd r = hd rest" by simp
      moreover from Cons have "rest \<noteq> []" by auto
      ultimately show ?thesis using Cons Cons.prems \<open>w = []\<close> by auto
    qed
  next
    case (Cons d w')
    with Cons.IH Cons.prems have "runs (w @ rest) = w # runs rest" by auto
    with Cons Cons.prems show ?thesis by auto
  qed
qed

lemma test_name_word: "\<forall>x \<in> set test_name. is_word_char x = True"
  by (simp add: test_name_def is_word_char_def)

lemma relabel_other: "x \<in> set w \<Longrightarrow> \<not> is_word_char x \<Longrightarrow> relabel new w = w"
  using test_name_word by (auto simp: relabel_def)

lemma scan_spec_nonword:
  assumes "s = [] \<or> \<not> is_word_char (hd s)"
  shows "scan_spec new pw s = concat (map (relabel new) (runs s))"
proof (cases "runs s")
  case Nil
  then show ?thesis by (simp add: scan_spec_def)
next
  case (Cons r rs)
  from runs_hd [OF Cons] have "hd r = hd s" by simp
  moreover from Cons have "s \<noteq> []" by auto
  ultimately have "\<not> is_word_char (hd r)" using assms by simp
  then show ?thesis using Cons by (simp add: scan_spec_def)
qed

lemma matches_hereD:
  assumes "matches_here pw s"
  shows "\<not> pw \<and> (\<exists>rest. s = test_name @ rest \<and> (rest = [] \<or> \<not> is_word_char (hd rest)))"
proof -
  from assms have p: "\<not> pw" "prefix test_name s" by (simp_all add: matches_here_def)
  then obtain rest where rest: "s = test_name @ rest" by (auto simp: prefix_def)
  with assms have "rest = [] \<or> \<not> is_word_char (hd rest)"
    by (cases rest) (simp_all add: matches_here_def)
  with p rest show ?thesis by blast
qed

lemma matches_hereI:
  "rest = [] \<or> \<not> is_word_char (hd rest) \<Longrightarrow> matches_here False (test_name @ rest)"
  by (cases rest) (simp_all add: matches_here_def)

lemma single_not_test_name: "[c] \<noteq> test_name"
  by (simp add: test_name_def)

lemma scan_spec_step:
  assumes "\<not> matches_here pw (c # cs)"
  shows "scan_spec new pw (c # cs) = c # scan_spec new (is_word_char c) cs"
proof (cases "runs cs")
  case Nil
  then have "cs = []" by (simp add: runs_Nil_iff)
  then show ?thesis by (simp add: scan_spec_def relabel_def single_not_test_name)
next
  case first: (Cons r rs)
  from runs_hd [OF first] have r: "r \<noteq> []" "hd r = hd cs" by simp_all
  from runs_split [OF first] obtain rest where
    split: "cs = r @ rest" and
    bound: "rest \<noteq> [] \<longrightarrow> is_word_char (hd rest) \<noteq> is_word_char (hd cs)" by blast
  show ?thesis
  proof (cases "is_word_char (hd r) = is_word_char c")
    case same: True
    then have runs_eq: "runs (c # cs) = (c # r) # rs" using first by simp
    show ?thesis
    proof (cases "is_word_char c")
      case True
      have keep: "relabel new (c # r) = c # r" if "\<not> pw"
      proof -
        have "c # r \<noteq> test_name"
        proof
          assume eq: "c # r = test_name"
          have "c # cs = (c # r) @ rest" using split by simp
          then have "c # cs = test_name @ rest" using eq by simp
          moreover have "rest = [] \<or> \<not> is_word_char (hd rest)"
            using bound r(2) same True by auto
          ultimately have "matches_here False (c # cs)" using matches_hereI by metis
          with assms that show False by simp
        qed
        then show ?thesis by (simp add: relabel_def)
      qed
      have "scan_spec new pw (c # cs) = (c # r) @ concat (map (relabel new) rs)"
        using runs_eq True keep by (cases pw) (simp_all add: scan_spec_def)
      moreover have "scan_spec new (is_word_char c) cs = r @ concat (map (relabel new) rs)"
        using first True same by (simp add: scan_spec_def)
      ultimately show ?thesis by simp
    next
      case False
      have "relabel new (c # r) = c # r" using False relabel_other [of c "c # r"] by simp
      moreover have "relabel new r = r"
      proof -
        have "hd r \<in> set r" using r(1) by simp
        moreover have "\<not> is_word_char (hd r)" using False same by simp
        ultimately show ?thesis by (rule relabel_other)
      qed
      ultimately show ?thesis using runs_eq first False by (simp add: scan_spec_def)
    qed
  next
    case False
    then have runs_eq: "runs (c # cs) = [c] # r # rs" using first by simp
    have "relabel new [c] = [c]" by (simp add: relabel_def single_not_test_name)
    then have "scan_spec new pw (c # cs) = c # relabel new r @ concat (map (relabel new) rs)"
      using runs_eq by (simp add: scan_spec_def)
    moreover have "scan_spec new (is_word_char c) cs = relabel new r @ concat (map (relabel new) rs)"
      using first False by (auto simp: scan_spec_def)
    ultimately show ?thesis by simp
  qed
qed

lemma runs_test_name:
  assumes "rest = [] \<or> \<not> is_word_char (hd rest)"
  shows "runs (test_name @ rest) = test_name # runs rest"
proof -
  have "test_name \<noteq> []" by (simp add: test_name_def)
  moreover have "rest = [] \<or> is_word_char (hd rest) \<noteq> True" using assms by simp
  ultimately show ?thesis using runs_word_run [of test_name True rest] test_name_word by blast
qed

lemma sub_scan_spec: "sub_scan new pw s = scan_spec new pw s"
proof (induction new pw s rule: sub_scan.induct)
  case (1 new pw)
  then show ?case by (simp add: scan_spec_def)
next
  case (2 new pw c cs)
  show ?case
  proof (cases "matches_here pw (c # cs)")
    case True
    from matches_hereD [OF True] obtain rest where
      npw: "\<not> pw" and split: "c # cs = test_name @ rest" and
      bound: "rest = [] \<or> \<not> is_word_char (hd rest)" by blast
    have "scan_spec new pw (test_name @ rest) = new @ concat (map (relabel new) (runs rest))"
      using runs_test_name [OF bound] npw by (simp add: scan_spec_def relabel_def)
    then have lhs: "scan_spec new pw (c # cs) = new @ concat (map (relabel new) (runs rest))"
      using split by simp
    have "drop (length test_name) (test_name @ rest) = rest" by simp
    then have dr: "drop (length test_name) (c # cs) = rest" using split by simp
    have "scan_spec new True rest = concat (map (relabel new) (runs rest))"
      using bound by (rule scan_spec_nonword)
    then have "sub_scan new True (drop (length test_name) (c # cs)) =
      concat (map (relabel new) (runs rest))" using 2(1) [OF True] dr by simp
    then have "sub_scan new pw (c # cs) = new @ concat (map (relabel new) (runs rest))"
      using True by simp
    with lhs show ?thesis by simp
  next
    case False
    then show ?thesis using 2(2) [OF False] scan_spec_step [OF False] by simp
  qed
qed

lemma sub_scan_replace: "sub_scan new False s = replace_whole_words new s"
  by (cases "runs s") (simp_all add: sub_scan_spec scan_spec_def replace_whole_words_def)

subsection \<open>Reading and writing fs\<close>

lemma cwd_write_file: "cwd (write_file fs p data) = cwd fs"
  by (simp add: write_file_def)

lemma cwd_remove_file: "cwd (remove_file fs p) = cwd fs"
  by (simp add: remove_file_def)

lemma cwd_extractall: "cwd (extractall fs target members) = cwd fs"
proof -
  have "cwd (foldl (\<lambda>f (name, data). write_file f (join target name) data) fs members)
      = cwd fs"
    by (induction members arbitrary: fs) (auto simp: cwd_write_file)
  then show ?thesis by (simp add: extractall_def)
qed

lemma read_write_file:
  "read_file (write_file fs p data) q
     = (if resolve (cwd fs) q = resolve (cwd fs) p then Some data else read_file fs q)"
  by (simp add: read_file_def write_file_def)

lemma read_remove_file:
  "read_file (remove_file fs p) q
     = (if resolve (cwd fs) q = resolve (cwd fs) p then None else read_file fs q)"
  by (simp add: read_file_def remove_file_def)

subsection \<open>The validity flag of \<^verbatim>\<open>unzip_and_copy\<close>\<close>

lemma unzip_and_copy_returns:
  assumes "read_file files0 zip_path = Some bytes" and "unzip bytes = Some members"
    and "read_file (extractall files0 (dirname zip_path) members) (origin_path zip_path)
           = Some content"
    and "re_sub (label zip_path) content = Inr modified"
  shows "\<exists>files'. unzip_and_copy unzip files0 zip_path
           = Inr (\<not> contains content skipped_marker, files')
         \<and> read_file files' (result_path zip_path) = Some modified"
  using assms by (simp add: unzip_and_copy_def Let_def read_write_file)

lemma unzip_and_copy_cases:
  assumes "unzip_and_copy unzip files0 zip_path = Inr (valid, files')"
  obtains bytes members content modified where
    "read_file files0 zip_path = Some bytes" and "unzip bytes = Some members"
    and "read_file (extractall files0 (dirname zip_path) members) (origin_path zip_path)
           = Some content"
    and "re_sub (label zip_path) content = Inr modified"
    and "valid = (\<not> contains content skipped_marker)"
    and "files' = write_file
           (write_file
              (write_file
                 (remove_file (extractall files0 (dirname zip_path) members)
                    (origin_path zip_path))
                 (rename_path zip_path) content)
              (result_path zip_path) content)
           (result_path zip_path) modified"
  using assms
  by (auto simp: unzip_and_copy_def Let_def split: option.splits sum.splits)

text \<open>
  C2. Whenever \<^verbatim>\<open>unzip_and_copy\<close> returns, the report it copied had some content before the
  rewrite, the copy holds the rewritten content afterwards, and the value returned is false
  if and only if the content before the rewrite has \<^verbatim>\<open>skipped="2"\<close> as a substring.
\<close>

theorem unzip_and_copy_flag:
  assumes "unzip_and_copy unzip files0 zip_path = Inr (valid, files')"
  shows "\<exists>bytes members content modified.
           read_file files0 zip_path = Some bytes \<and> unzip bytes = Some members
         \<and> read_file (extractall files0 (dirname zip_path) members) (origin_path zip_path)
             = Some content
         \<and> re_sub (label zip_path) content = Inr modified
         \<and> read_file files' (result_path zip_path) = Some modified
         \<and> (\<not> valid \<longleftrightarrow> (\<exists>p q. content = p @ skipped_marker @ q))"
proof -
  from assms obtain bytes members content modified where
    h: "read_file files0 zip_path = Some bytes" "unzip bytes = Some members"
       "read_file (extractall files0 (dirname zip_path) members) (origin_path zip_path)
          = Some content"
       "re_sub (label zip_path) content = Inr modified"
       "valid = (\<not> contains content skipped_marker)"
       "files' = write_file
           (write_file
              (write_file
                 (remove_file (extractall files0 (dirname zip_path) members)
                    (origin_path zip_path))
                 (rename_path zip_path) content)
              (result_path zip_path) content)
           (result_path zip_path) modified"
    by (rule unzip_and_copy_cases)
  have "read_file files' (result_path zip_path) = Some modified"
    using h(6) by (simp add: read_write_file)
  moreover have "\<not> valid \<longleftrightarrow> (\<exists>p q. content = p @ skipped_marker @ q)"
    using h(5) by (simp add: contains_iff)
  ultimately show ?thesis using h(1-4) by blast
qed

theorem unzip_and_copy_flag_witness:
  \<open>\<exists>files' content.
     unzip_and_copy report_only
        (disk_with ''/w/run/Pixel 4/a.zip'' ''PK<testsuite name="TestShopping" skipped="2"/>'')
        ''/w/run/Pixel 4/a.zip'' = Inr (False, files')
     \<and> read_file files' ''/w/report/Pixel 4 appium junitreport.xml''
          = Some ''<testsuite name="AppiumTest Pixel 4" skipped="2"/>''
     \<and> (\<exists>p q. ''<testsuite name="TestShopping" skipped="2"/>'' = p @ skipped_marker @ q)\<close>
proof -
  let ?zp = "''/w/run/Pixel 4/a.zip''"
  let ?content = \<open>''<testsuite name="TestShopping" skipped="2"/>''\<close>
  let ?files = "disk_with ?zp (''PK'' @ ?content)"
  have run: "case unzip_and_copy report_only ?files ?zp of
          Inl e \<Rightarrow> False
        | Inr (v, f) \<Rightarrow> \<not> v"
    by code_simp
  then obtain files' where eq: "unzip_and_copy report_only ?files ?zp = Inr (False, files')"
    by (auto split: sum.splits)
  have rd: "read_file ?files ?zp = Some (''PK'' @ ?content)"
    by (simp add: disk_with_def read_write_file)
  have ex: "read_file (extractall ?files (dirname ?zp)
               [(''Host_Machine_Files/$DEVICEFARM_LOG_DIR/junitreport.xml'', ?content)])
              (origin_path ?zp) = Some ?content"
    by code_simp
  have rs: \<open>re_sub (label ?zp) ?content = Inr ''<testsuite name="AppiumTest Pixel 4" skipped="2"/>''\<close>
    by code_simp
  have rp: "result_path ?zp = ''/w/report/Pixel 4 appium junitreport.xml''"
    by code_simp
  from unzip_and_copy_flag [OF eq] obtain bytes members content modified where
    h: "read_file ?files ?zp = Some bytes" "report_only bytes = Some members"
       "read_file (extractall ?files (dirname ?zp) members) (origin_path ?zp) = Some content"
       "re_sub (label ?zp) content = Inr modified"
       "read_file files' (result_path ?zp) = Some modified"
       "\<not> False \<longleftrightarrow> (\<exists>p q. content = p @ skipped_marker @ q)"
    by blast
  from h(1) rd have "bytes = ''PK'' @ ?content" by simp
  with h(2) have "members = [(''Host_Machine_Files/$DEVICEFARM_LOG_DIR/junitreport.xml'', ?content)]"
    by (simp add: report_only_def)
  with h(3) ex have c: "content = ?content" by simp
  with h(4) rs have "modified = ''<testsuite name=\"AppiumTest Pixel 4\" skipped=\"2\"/>''" by simp
  with h(5) rp c h(6) eq show ?thesis by simp
qed

text \<open>
  The flag comes from the content before the rewrite and not from the content after it: in a
  directory named \<^verbatim>\<open>skipped="2"\<close> the report \<^verbatim>\<open>TestShopping\<close> is rewritten to a text that has
  the marker, and the value returned is still true.
\<close>

lemma flag_from_original_content:
  \<open>(case unzip_and_copy report_only (disk_with ''/w/run/skipped="2"/a.zip'' ''PKTestShopping'')
           ''/w/run/skipped="2"/a.zip'' of
      Inl e \<Rightarrow> False
    | Inr (valid, files') \<Rightarrow>
        valid \<and> read_file files' ''/w/report/skipped="2" appium junitreport.xml''
                  = Some ''AppiumTest skipped="2"'')
   \<and> \<not> contains ''TestShopping'' skipped_marker
   \<and> contains ''AppiumTest skipped="2"'' skipped_marker\<close>
  by code_simp

subsection \<open>The rewrite of the test name\<close>

lemma re_sub_literal:
  assumes "backslash \<notin> set new"
  shows "re_sub new content = Inr (replace_whole_words new content)"
  using assms by (simp add: re_sub_def parse_template_literal sub_scan_replace)

lemma label_no_backslash:
  "backslash \<notin> set (device_name zip_path) \<Longrightarrow> backslash \<notin> set (label zip_path)"
  by (auto simp: label_def backslash_def)

text \<open>
  C3, as amended. When the device name (the name of the directory that holds the zip file)
  has no backslash, \<^verbatim>\<open>unzip_and_copy\<close> returns and leaves in the report file the original
  content in which every whole word \<^verbatim>\<open>TestShopping\<close> has become \<^verbatim>\<open>AppiumTest\<close>, a space and the
  device name, and in which every other run of characters, also a longer word such as
  \<^verbatim>\<open>TestShoppingCart\<close>, is unchanged.
\<close>

theorem rewrite_whole_words:
  assumes "backslash \<notin> set (device_name zip_path)"
    and "read_file files0 zip_path = Some bytes" and "unzip bytes = Some members"
    and "read_file (extractall files0 (dirname zip_path) members) (origin_path zip_path)
           = Some content"
  shows "\<exists>valid files'.
           unzip_and_copy unzip files0 zip_path = Inr (valid, files')
         \<and> read_file files' (result_path zip_path)
             = Some (replace_whole_words (''AppiumTest '' @ device_name zip_path) content)"
proof -
  have "re_sub (label zip_path) content = Inr (replace_whole_words (label zip_path) content)"
    using assms(1) by (intro re_sub_literal label_no_backslash)
  with assms(2-4) have "\<exists>files'. unzip_and_copy unzip files0 zip_path
           = Inr (\<not> contains content skipped_marker, files')
         \<and> read_file files' (result_path zip_path)
             = Some (replace_whole_words (label zip_path) content)"
    by (rule unzip_and_copy_returns)
  then show ?thesis by (auto simp: label_def)
qed

theorem rewrite_whole_words_witness:
  "\<exists>valid files'.
     unzip_and_copy report_only
       (disk_with ''/w/run/Pixel 4/a.zip''
          ''PK(TestShopping) TestShoppingCart _TestShopping TestShopping'')
       ''/w/run/Pixel 4/a.zip'' = Inr (valid, files')
   \<and> read_file files' ''/w/report/Pixel 4 appium junitreport.xml''
        = Some ''(AppiumTest Pixel 4) TestShoppingCart _TestShopping AppiumTest Pixel 4''"
proof -
  let ?zp = "''/w/run/Pixel 4/a.zip''"
  let ?content = "''(TestShopping) TestShoppingCart _TestShopping TestShopping''"
  let ?files = "disk_with ?zp (''PK'' @ ?content)"
  let ?members = "[(''Host_Machine_Files/$DEVICEFARM_LOG_DIR/junitreport.xml'', ?content)]"
  have 1: "backslash \<notin> set (device_name ?zp)" by code_simp
  have 2: "read_file ?files ?zp = Some (''PK'' @ ?content)"
    by (simp add: disk_with_def read_write_file)
  have 3: "report_only (''PK'' @ ?content) = Some ?members" by (simp add: report_only_def)
  have 4: "read_file (extractall ?files (dirname ?zp) ?members) (origin_path ?zp)
             = Some ?content"
    by code_simp
  have 5: "result_path ?zp = ''/w/report/Pixel 4 appium junitreport.xml''" by code_simp
  have 6: "replace_whole_words (''AppiumTest '' @ device_name ?zp) ?content
     = ''(AppiumTest Pixel 4) TestShoppingCart _TestShopping AppiumTest Pixel 4''" by code_simp
  have "\<exists>valid files'.
           unzip_and_copy report_only ?files ?zp = Inr (valid, files')
         \<and> read_file files' (result_path ?zp)
             = Some (replace_whole_words (''AppiumTest '' @ device_name ?zp) ?content)"
    using 1 2 3 4 by (rule rewrite_whole_words)
  then show ?thesis unfolding 5 6 by simp
qed

text \<open>
  With a backslash in the device name the claim fails: \<^verbatim>\<open>re.sub\<close> reads the replacement as a
  template. In the directory \<^verbatim>\<open>A\n1\<close> the report \<^verbatim>\<open>TestShopping\<close> becomes \<^verbatim>\<open>AppiumTest A\<close>, a
  line feed and \<^verbatim>\<open>1\<close>, which is not the label.
\<close>

theorem rewrite_backslash_counterexample:
  "report_after report_only
     (disk_with (''/w/run/A'' @ [CHR 0x5C] @ ''n1/a.zip'') ''PKTestShopping'')
     (''/w/run/A'' @ [CHR 0x5C] @ ''n1/a.zip'')
     = Some (''AppiumTest A'' @ [CHR 0x0A] @ ''1'')
   \<and> report_after report_only
     (disk_with (''/w/run/A'' @ [CHR 0x5C] @ ''n1/a.zip'') ''PKTestShopping'')
     (''/w/run/A'' @ [CHR 0x5C] @ ''n1/a.zip'')
     \<noteq> Some (replace_whole_words
          (''AppiumTest '' @ device_name (''/w/run/A'' @ [CHR 0x5C] @ ''n1/a.zip''))
          ''TestShopping'')"
  by code_simp

subsection \<open>Paths\<close>

lemma rev_split:
  "rev (dropWhile P (rev p)) @ rev (takeWhile P (rev p)) = p"
proof -
  have "rev (takeWhile P (rev p) @ dropWhile P (rev p)) = rev (rev p)"
    by (simp only: takeWhile_dropWhile_id)
  then show ?thesis by (simp only: rev_append rev_rev_ident)
qed

lemma head_basename: "p = head_part p @ basename p"
  unfolding head_part_def basename_def by (rule rev_split [symmetric])

lemma basename_no_slash: "slash \<notin> set (basename p)"
proof
  assume "slash \<in> set (basename p)"
  then have "slash \<in> set (takeWhile (\<lambda>c. c \<noteq> slash) (rev p))" by (simp add: basename_def)
  then show False by (auto dest: set_takeWhileD)
qed













subsection \<open>Locations\<close>

lemma split_path_not_Nil: "split_path s \<noteq> []"
  by (induction s) (auto split: list.splits)

lemma split_path_append: "split_path (a @ slash # b) = split_path a @ split_path b"
  by (induction a) (auto split: list.splits simp: split_path_not_Nil)

lemma split_path_name: "slash \<notin> set c \<Longrightarrow> split_path c = [c]"
  by (induction c) auto

lemma walk_empty: "walk here [] = here"
  by (simp add: walk_def)

lemma resolve_append: "resolve wd (a @ slash # b) = foldl walk (below wd a) (split_path b)"
proof (cases "a = []")
  case True
  then show ?thesis by (simp add: resolve_def below_def walk_empty)
next
  case False
  then have hd: "hd (a @ slash # b) = hd a" by simp
  have 1: "split_path (a @ slash # b) = split_path a @ split_path b"
    by (rule split_path_append)
  have 2: "split_path (wd @ [slash] @ a @ slash # b) = split_path (wd @ [slash] @ a) @ split_path b"
    using split_path_append [of "wd @ [slash] @ a" b] by simp
  show ?thesis using False hd 1 2 by (simp add: resolve_def below_def)
qed








lemma origin_loc:
  "resolve wd (origin_path zip_path)
     = below wd (dirname zip_path)
       @ [''Host_Machine_Files'', ''$DEVICEFARM_LOG_DIR'', ''junitreport.xml'']"
proof -
  have "origin_path zip_path
      = dirname zip_path @ slash # ''Host_Machine_Files/$DEVICEFARM_LOG_DIR/junitreport.xml''"
    by (simp add: origin_path_def report_member_def slash_def)
  moreover have "split_path ''Host_Machine_Files/$DEVICEFARM_LOG_DIR/junitreport.xml''
      = [''Host_Machine_Files'', ''$DEVICEFARM_LOG_DIR'', ''junitreport.xml'']"
    by (simp add: slash_def)
  ultimately show ?thesis by (simp add: resolve_append walk_def)
qed









subsection \<open>What the rewrite leaves alone\<close>




subsection \<open>The loops of \<^verbatim>\<open>download_artifacts\<close>\<close>

lemma artifact_step_effect:
  assumes "artifact_step unzip path_to a (v, st) = Inr (v', st')"
  shows "logcat_paths st'
           = logcat_paths st @ (if v \<and> is_logcat a then [artifact_save_path path_to a] else [])"
    and "downloads st'
           = downloads st @ (if wanted a then [(a_url a, artifact_save_path path_to a)] else [])"
    and "\<not> is_zip a \<Longrightarrow> v' = v"
  using assms
  by (auto simp: artifact_step_def Let_def wanted_def split: if_splits sum.splits prod.splits)

lemma recorded_Nil: "recorded unzip path_to [] vs = []"
  by (simp add: recorded_def)

lemma recorded_Cons:
  "recorded unzip path_to (a # as) (v, st)
     = (if v \<and> is_logcat a then [artifact_save_path path_to a] else [])
       @ (case artifact_step unzip path_to a (v, st) of
            Inl e \<Rightarrow> []
          | Inr vs' \<Rightarrow> recorded unzip path_to as vs')"
  by (simp add: recorded_def split: sum.splits)

lemma fetches_Cons:
  "fetches path_to (a # as)
     = (if wanted a then [(a_url a, artifact_save_path path_to a)] else []) @ fetches path_to as"
  by (simp add: fetches_def)

lemma logcat_files_Cons:
  "logcat_files path_to (a # as)
     = (if is_logcat a then [artifact_save_path path_to a] else []) @ logcat_files path_to as"
  by (simp add: logcat_files_def)

lemma artifacts_loop_effect:
  "artifacts_loop unzip path_to as (v, st) = Inr (v', st') \<Longrightarrow>
     logcat_paths st' = logcat_paths st @ recorded unzip path_to as (v, st)
   \<and> downloads st' = downloads st @ fetches path_to as"
proof (induction as arbitrary: v st)
  case Nil
  then show ?case by (simp add: recorded_Nil fetches_def)
next
  case (Cons a as)
  from Cons.prems obtain v1 st1 where
    step: "artifact_step unzip path_to a (v, st) = Inr (v1, st1)" and
    rest: "artifacts_loop unzip path_to as (v1, st1) = Inr (v', st')"
    by (auto split: sum.splits)
  from Cons.IH [OF rest] have
    ih: "logcat_paths st' = logcat_paths st1 @ recorded unzip path_to as (v1, st1)"
        "downloads st' = downloads st1 @ fetches path_to as" by simp_all
  from artifact_step_effect(1,2) [OF step] ih show ?case
    by (simp add: recorded_Cons fetches_Cons step)
qed

lemma recorded_subseq: "subseq (recorded unzip path_to as vs) (logcat_files path_to as)"
proof (induction as arbitrary: vs)
  case Nil
  then show ?case by (simp add: recorded_Nil)
next
  case (Cons a as)
  obtain v st where vs: "vs = (v, st)" by (cases vs)
  have "subseq (case artifact_step unzip path_to a (v, st) of
            Inl e \<Rightarrow> []
          | Inr vs' \<Rightarrow> recorded unzip path_to as vs') (logcat_files path_to as)"
    using Cons.IH by (simp split: sum.splits)
  then show ?case unfolding vs recorded_Cons logcat_files_Cons
    by (auto intro: list_emb_append_mono subseq_Cons')
qed

lemma adds_refl: "adds path_to [] st st"
  by (simp add: adds_def fetches_def logcat_files_def)

lemma adds_trans:
  assumes "adds path_to as st st1" and "adds path_to bs st1 st2"
  shows "adds path_to (as @ bs) st st2"
proof -
  from assms(1) obtain xs where
    1: "downloads st1 = downloads st @ fetches path_to as"
       "logcat_paths st1 = logcat_paths st @ xs" "subseq xs (logcat_files path_to as)"
    by (auto simp: adds_def)
  from assms(2) obtain ys where
    2: "downloads st2 = downloads st1 @ fetches path_to bs"
       "logcat_paths st2 = logcat_paths st1 @ ys" "subseq ys (logcat_files path_to bs)"
    by (auto simp: adds_def)
  have "subseq (xs @ ys) (logcat_files path_to (as @ bs))"
    using 1(3) 2(3) by (simp add: logcat_files_def list_emb_append_mono)
  moreover have "logcat_paths st2 = logcat_paths st @ (xs @ ys)" using 1(2) 2(2) by simp
  moreover have "downloads st2 = downloads st @ fetches path_to (as @ bs)"
    using 1(1) 2(1) by (simp add: fetches_def)
  ultimately show ?thesis unfolding adds_def by blast
qed

lemma artifacts_loop_adds:
  assumes "artifacts_loop unzip path_to as (v, st) = Inr (v', st')"
  shows "adds path_to as st st'"
  using artifacts_loop_effect [OF assms] recorded_subseq [of unzip path_to as "(v, st)"]
  by (auto simp: adds_def)

lemma types_loop_adds:
  "types_loop unzip path_to t tys st = Inr st' \<Longrightarrow>
     adds path_to (concat (map (t_artifacts t) tys)) st st'"
proof (induction tys arbitrary: st)
  case Nil
  then show ?case by (simp add: adds_refl)
next
  case (Cons ty tys)
  from Cons.prems obtain v1 st1 where
    step: "artifacts_loop unzip path_to (t_artifacts t ty) (True, st) = Inr (v1, st1)" and
    rest: "types_loop unzip path_to t tys st1 = Inr st'"
    by (auto split: sum.splits)
  from adds_trans [OF artifacts_loop_adds [OF step] Cons.IH [OF rest]]
  show ?case by simp
qed

lemma tests_loop_adds:
  "tests_loop unzip path_to ts st = Inr st' \<Longrightarrow>
     adds path_to (concat (map test_artifacts ts)) st st'"
proof (induction ts arbitrary: st)
  case Nil
  then show ?case by (simp add: adds_refl)
next
  case (Cons t ts)
  from Cons.prems obtain st1 where
    step: "types_loop unzip path_to t artifact_types st = Inr st1" and
    rest: "tests_loop unzip path_to ts st1 = Inr st'"
    by (auto split: sum.splits)
  from adds_trans [OF types_loop_adds [OF step] Cons.IH [OF rest]]
  show ?case by (simp add: test_artifacts_def)
qed

lemma suites_loop_adds:
  "suites_loop unzip path_to ss st = Inr st' \<Longrightarrow>
     adds path_to (concat (map suite_artifacts (filter (\<lambda>s. s_name s = ''Tests Suite'') ss))) st st'"
proof (induction ss arbitrary: st)
  case Nil
  then show ?case by (simp add: adds_refl)
next
  case (Cons s ss)
  show ?case
  proof (cases "s_name s = ''Tests Suite''")
    case True
    with Cons.prems obtain st1 where
      step: "tests_loop unzip path_to (s_tests s) st = Inr st1" and
      rest: "suites_loop unzip path_to ss st1 = Inr st'"
      by (auto split: sum.splits)
    from adds_trans [OF tests_loop_adds [OF step] Cons.IH [OF rest]] True
    show ?thesis by (simp add: suite_artifacts_def)
  next
    case False
    with Cons.prems have "suites_loop unzip path_to ss st = Inr st'" by simp
    from Cons.IH [OF this] False show ?thesis by simp
  qed
qed

lemma adds_jobs_refl: "adds_jobs save_path [] st st"
  by (simp add: adds_jobs_def expected_downloads_def logcat_encounters_def)

lemma jobs_loop_adds:
  "jobs_loop unzip save_path js st = Inr st' \<Longrightarrow> adds_jobs save_path js st st'"
proof (induction js arbitrary: st)
  case Nil
  then show ?case by (simp add: adds_jobs_refl)
next
  case (Cons j js)
  from Cons.prems obtain st1 where
    step: "suites_loop unzip (join save_path (j_name j)) (j_suites j) st = Inr st1" and
    rest: "jobs_loop unzip save_path js st1 = Inr st'"
    by (auto split: sum.splits)
  from suites_loop_adds [OF step] obtain xs where
    1: "downloads st1 = downloads st @ fetches (join save_path (j_name j)) (job_artifacts j)"
       "logcat_paths st1 = logcat_paths st @ xs"
       "subseq xs (logcat_files (join save_path (j_name j)) (job_artifacts j))"
    by (auto simp: adds_def job_artifacts_def)
  from Cons.IH [OF rest] obtain ys where
    2: "downloads st' = downloads st1 @ expected_downloads js save_path"
       "logcat_paths st' = logcat_paths st1 @ ys"
       "subseq ys (logcat_encounters js save_path)"
    by (auto simp: adds_jobs_def)
  have "subseq (xs @ ys) (logcat_encounters (j # js) save_path)"
    using 1(3) 2(3) by (simp add: logcat_encounters_def list_emb_append_mono)
  moreover have "logcat_paths st' = logcat_paths st @ (xs @ ys)" using 1(2) 2(2) by simp
  moreover have "downloads st' = downloads st @ expected_downloads (j # js) save_path"
    using 1(1) 2(1) by (simp add: expected_downloads_def)
  ultimately show ?case unfolding adds_jobs_def by blast
qed

lemma download_artifacts_adds:
  assumes "download_artifacts unzip jobs save_path files0 = Inr st"
  shows "downloads st = expected_downloads jobs save_path"
    and "subseq (logcat_paths st) (logcat_encounters jobs save_path)"
  using jobs_loop_adds [OF assms [unfolded download_artifacts_def]]
  by (auto simp: adds_jobs_def)

subsection \<open>The files of the downloads\<close>

lemma read_extractall:
  "read_file fs p \<noteq> None \<Longrightarrow> read_file (extractall fs target members) p \<noteq> None"
proof -
  have "read_file fs p \<noteq> None \<Longrightarrow>
      read_file (foldl (\<lambda>f (name, data). write_file f (join target name) data) fs members) p
        \<noteq> None"
    by (induction members arbitrary: fs) (auto simp: read_write_file)
  then show "read_file fs p \<noteq> None \<Longrightarrow> read_file (extractall fs target members) p \<noteq> None"
    by (simp add: extractall_def)
qed

lemma unzip_and_copy_keeps:
  assumes "unzip_and_copy unzip files0 zip_path = Inr (valid, files')"
    and "read_file files0 p \<noteq> None"
    and "resolve (cwd files0) p \<noteq> resolve (cwd files0) (origin_path zip_path)"
  shows "read_file files' p \<noteq> None" and "cwd files' = cwd files0"
proof -
  from assms(1) obtain bytes members content modified where
    f: "files' = write_file
           (write_file
              (write_file
                 (remove_file (extractall files0 (dirname zip_path) members)
                    (origin_path zip_path))
                 (rename_path zip_path) content)
              (result_path zip_path) content)
           (result_path zip_path) modified"
    by (rule unzip_and_copy_cases)
  have wd: "cwd (extractall files0 (dirname zip_path) members) = cwd files0"
    by (rule cwd_extractall)
  have "read_file (extractall files0 (dirname zip_path) members) p \<noteq> None"
    using assms(2) by (rule read_extractall)
  with assms(3) show "read_file files' p \<noteq> None"
    unfolding f by (simp add: read_write_file read_remove_file cwd_write_file cwd_remove_file wd)
  show "cwd files' = cwd files0"
    unfolding f by (simp add: cwd_write_file cwd_remove_file wd)
qed

lemma head_part_last: "head_part p \<noteq> [] \<Longrightarrow> last (head_part p) = slash"
proof -
  assume ne: "head_part p \<noteq> []"
  let ?d = "dropWhile (\<lambda>c. c \<noteq> slash) (rev p)"
  from ne have d: "?d \<noteq> []" by (simp add: head_part_def)
  then have "\<not> (hd ?d \<noteq> slash)" by (rule hd_dropWhile)
  moreover have "last (rev ?d) = hd ?d" using d by (simp add: last_rev)
  ultimately show ?thesis by (simp add: head_part_def)
qed

lemma resolve_basename:
  assumes "basename p \<noteq> []" and "basename p \<noteq> ''.''" and "basename p \<noteq> ''..''"
  shows "\<exists>dir. resolve wd p = dir @ [basename p]"
proof -
  let ?b = "basename p"
  have ns: "slash \<notin> set ?b" by (rule basename_no_slash)
  have p: "p = head_part p @ ?b" by (rule head_basename)
  have w: "foldl walk here (split_path ?b) = here @ [?b]" for here
    using assms by (simp add: split_path_name [OF ns] walk_def)
  show ?thesis
  proof (cases "head_part p = []")
    case True
    with p have pb: "p = ?b" by simp
    from assms(1) ns have "hd ?b \<noteq> slash" by (cases ?b) auto
    then have "resolve wd ?b = foldl walk [] (split_path (wd @ slash # ?b))"
      by (simp add: resolve_def)
    also have "\<dots> = foldl walk [] (split_path wd) @ [?b]"
      by (simp only: split_path_append foldl_append w)
    finally have "resolve wd ?b = foldl walk [] (split_path wd) @ [?b]" .
    with pb show ?thesis by metis
  next
    case False
    then have "last (head_part p) = slash" by (rule head_part_last)
    with False obtain h where "head_part p = h @ [slash]"
      by (metis append_butlast_last_id)
    with p have "p = h @ slash # ?b" by simp
    then have "resolve wd p = foldl walk (below wd h) (split_path ?b)"
      by (metis resolve_append)
    then show ?thesis by (simp add: w)
  qed
qed

lemma basename_suffix:
  assumes "suffix suf p" and "slash \<notin> set suf"
  shows "suffix suf (basename p)"
proof -
  from assms(1) obtain pre where p: "p = pre @ suf" by (auto simp: suffix_def)
  have "takeWhile (\<lambda>c. c \<noteq> slash) (rev suf @ rev pre)
      = rev suf @ takeWhile (\<lambda>c. c \<noteq> slash) (rev pre)"
    using assms(2) by (intro takeWhile_append2) auto
  then have "basename p = rev (takeWhile (\<lambda>c. c \<noteq> slash) (rev pre)) @ suf"
    by (simp add: basename_def p)
  then show ?thesis by (simp add: suffix_def)
qed

lemma suffix_last: "suffix s p \<Longrightarrow> s \<noteq> [] \<Longrightarrow> last p = last s"
  by (auto simp: suffix_def)

lemma download_not_origin:
  assumes "endswith file ''.logcat'' \<or> endswith file ''.zip''"
  shows "resolve wd file \<noteq> resolve wd (origin_path zip_path)"
proof
  assume eq: "resolve wd file = resolve wd (origin_path zip_path)"
  from assms have "suffix ''.logcat'' (basename file) \<or> suffix ''.zip'' (basename file)"
    by (auto simp: endswith_def slash_def intro: basename_suffix)
  then have l: "last (basename file) = CHR ''t'' \<or> last (basename file) = CHR ''p''"
    and n: "length (basename file) \<ge> 4"
    by (auto dest: suffix_last suffix_length_le)
  from n have "basename file \<noteq> []" "basename file \<noteq> ''.''" "basename file \<noteq> ''..''"
    by auto
  then obtain dir where "resolve wd file = dir @ [basename file]"
    using resolve_basename by blast
  with eq have "dir @ [basename file]
      = below wd (dirname zip_path)
        @ [''Host_Machine_Files'', ''$DEVICEFARM_LOG_DIR'', ''junitreport.xml'']"
    by (simp only: origin_loc)
  from arg_cong [OF this, of last] have "basename file = ''junitreport.xml''" by simp
  with l show False by simp
qed

lemma artifact_step_unwanted: "\<not> wanted a \<Longrightarrow> artifact_step unzip path_to a vs = Inr vs"
  by (cases vs) (simp add: artifact_step_def wanted_def)

lemma endswith_join:
  assumes "endswith b suf"
  shows "endswith (join a b) suf"
proof -
  from assms have s: "suffix suf b" by (simp add: endswith_def)
  have "join a b = b \<or> join a b = a @ b \<or> join a b = (a @ [slash]) @ b"
    unfolding join_def by (simp only: append_assoc split: if_split) blast
  then consider "join a b = b" | "join a b = a @ b" | "join a b = (a @ [slash]) @ b"
    by blast
  then show ?thesis
  proof cases
    case 1
    with s show ?thesis by (simp only: endswith_def)
  next
    case 2
    from s have "suffix suf (a @ b)" by (rule suffix_appendI)
    with 2 show ?thesis by (simp only: endswith_def)
  next
    case 3
    from s have "suffix suf ((a @ [slash]) @ b)" by (rule suffix_appendI)
    with 3 show ?thesis by (simp only: endswith_def)
  qed
qed

lemma logcat_not_zip: "endswith p ''.logcat'' \<Longrightarrow> \<not> endswith p ''.zip''"
proof
  assume "endswith p ''.logcat''" and "endswith p ''.zip''"
  then have "last p = last ''.logcat''" and "last p = last ''.zip''"
    by (auto simp: endswith_def dest: suffix_last)
  then show False by simp
qed

lemma artifact_step_files:
  assumes "artifact_step unzip path_to a (v, st) = Inr (v', st')"
  shows "is_zip a \<Longrightarrow>
           unzip_and_copy unzip
             (write_file (files st) (artifact_save_path path_to a) (a_content a))
             (artifact_save_path path_to a) = Inr (v', files st')"
    and "is_logcat a \<Longrightarrow>
           files st' = write_file (files st) (artifact_save_path path_to a) (a_content a)"
    and "\<not> wanted a \<Longrightarrow> st' = st"
proof -
  show "\<not> wanted a \<Longrightarrow> st' = st"
    using assms by (simp add: artifact_step_unwanted)
  show "is_logcat a \<Longrightarrow>
           files st' = write_file (files st) (artifact_save_path path_to a) (a_content a)"
  proof -
    assume l: "is_logcat a"
    then have "\<not> is_zip a" by (simp add: is_logcat_def is_zip_def logcat_not_zip)
    with l assms show ?thesis by (auto simp: artifact_step_def Let_def split: if_splits)
  qed
  show "is_zip a \<Longrightarrow>
           unzip_and_copy unzip
             (write_file (files st) (artifact_save_path path_to a) (a_content a))
             (artifact_save_path path_to a) = Inr (v', files st')"
  proof -
    assume z: "is_zip a"
    then have "\<not> is_logcat a" using logcat_not_zip by (auto simp: is_logcat_def is_zip_def)
    with z assms show ?thesis
      by (auto simp: artifact_step_def Let_def split: if_splits sum.splits)
  qed
qed

lemma artifact_step_zip:
  assumes "is_zip z"
    and "unzip_and_copy unzip
           (write_file (files st) (artifact_save_path path_to z) (a_content z))
           (artifact_save_path path_to z) = Inr (valid, files2)"
  shows "\<exists>st1. artifact_step unzip path_to z (v, st) = Inr (valid, st1)
           \<and> logcat_paths st1 = logcat_paths st"
proof -
  from assms(1) have "\<not> is_logcat z" using logcat_not_zip by (auto simp: is_logcat_def is_zip_def)
  with assms show ?thesis by (simp add: artifact_step_def Let_def)
qed

lemma artifact_step_saved:
  assumes "saved st" and "artifact_step unzip path_to a (v, st) = Inr (v', st')"
  shows "saved st'"
proof (cases "wanted a")
  case False
  with assms show ?thesis by (simp add: artifact_step_unwanted)
next
  case True
  let ?p = "artifact_save_path path_to a"
  let ?f = "write_file (files st) ?p (a_content a)"
  from True have e: "endswith ?p ''.logcat'' \<or> endswith ?p ''.zip''"
    by (auto simp: wanted_def is_logcat_def is_zip_def artifact_save_path_def endswith_join)
  have d: "downloads st' = downloads st @ [(a_url a, ?p)]"
    using artifact_step_effect(2) [OF assms(2)] True by simp
  have old: "read_file ?f dest \<noteq> None \<and> (endswith dest ''.logcat'' \<or> endswith dest ''.zip'')"
    if "(url, dest) \<in> set (downloads st')" for url dest
  proof (cases "(url, dest) \<in> set (downloads st)")
    case True
    with assms(1) show ?thesis by (auto simp: saved_def read_write_file)
  next
    case False
    with that d have "dest = ?p" by simp
    with e show ?thesis by (simp add: read_write_file)
  qed
  show ?thesis
  proof (cases "is_zip a")
    case False
    with True have "is_logcat a" by (simp add: wanted_def)
    from artifact_step_files(2) [OF assms(2) this] have "files st' = ?f" .
    with old show ?thesis by (auto simp: saved_def)
  next
    case True
    from artifact_step_files(1) [OF assms(2) this]
    have u: "unzip_and_copy unzip ?f ?p = Inr (v', files st')" .
    have "read_file (files st') dest \<noteq> None
        \<and> (endswith dest ''.logcat'' \<or> endswith dest ''.zip'')"
      if m: "(url, dest) \<in> set (downloads st')" for url dest
    proof -
      note o = old [OF m]
      from o have "resolve (cwd ?f) dest \<noteq> resolve (cwd ?f) (origin_path ?p)"
        by (intro download_not_origin) simp
      from unzip_and_copy_keeps(1) [OF u _ this] o show ?thesis by simp
    qed
    then show ?thesis by (auto simp: saved_def)
  qed
qed

lemma artifacts_loop_saved:
  "saved st \<Longrightarrow> artifacts_loop unzip path_to as (v, st) = Inr (v', st') \<Longrightarrow> saved st'"
proof (induction as arbitrary: v st)
  case Nil
  then show ?case by simp
next
  case (Cons a as)
  from Cons.prems(2) obtain v1 st1 where
    step: "artifact_step unzip path_to a (v, st) = Inr (v1, st1)" and
    rest: "artifacts_loop unzip path_to as (v1, st1) = Inr (v', st')"
    by (auto split: sum.splits)
  from artifact_step_saved [OF Cons.prems(1) step] rest show ?case by (rule Cons.IH)
qed

lemma types_loop_saved:
  "saved st \<Longrightarrow> types_loop unzip path_to t tys st = Inr st' \<Longrightarrow> saved st'"
proof (induction tys arbitrary: st)
  case Nil
  then show ?case by simp
next
  case (Cons ty tys)
  from Cons.prems(2) obtain v1 st1 where
    step: "artifacts_loop unzip path_to (t_artifacts t ty) (True, st) = Inr (v1, st1)" and
    rest: "types_loop unzip path_to t tys st1 = Inr st'"
    by (auto split: sum.splits)
  from artifacts_loop_saved [OF Cons.prems(1) step] rest show ?case by (rule Cons.IH)
qed

lemma tests_loop_saved:
  "saved st \<Longrightarrow> tests_loop unzip path_to ts st = Inr st' \<Longrightarrow> saved st'"
proof (induction ts arbitrary: st)
  case Nil
  then show ?case by simp
next
  case (Cons t ts)
  from Cons.prems(2) obtain st1 where
    step: "types_loop unzip path_to t artifact_types st = Inr st1" and
    rest: "tests_loop unzip path_to ts st1 = Inr st'"
    by (auto split: sum.splits)
  from types_loop_saved [OF Cons.prems(1) step] rest show ?case by (rule Cons.IH)
qed

lemma suites_loop_saved:
  "saved st \<Longrightarrow> suites_loop unzip path_to ss st = Inr st' \<Longrightarrow> saved st'"
proof (induction ss arbitrary: st)
  case Nil
  then show ?case by simp
next
  case (Cons s ss)
  show ?case
  proof (cases "s_name s = ''Tests Suite''")
    case True
    with Cons.prems(2) obtain st1 where
      step: "tests_loop unzip path_to (s_tests s) st = Inr st1" and
      rest: "suites_loop unzip path_to ss st1 = Inr st'"
      by (auto split: sum.splits)
    from tests_loop_saved [OF Cons.prems(1) step] rest show ?thesis by (rule Cons.IH)
  next
    case False
    with Cons.prems(2) have "suites_loop unzip path_to ss st = Inr st'" by simp
    with Cons.prems(1) show ?thesis by (rule Cons.IH)
  qed
qed

lemma jobs_loop_saved:
  "saved st \<Longrightarrow> jobs_loop unzip save_path js st = Inr st' \<Longrightarrow> saved st'"
proof (induction js arbitrary: st)
  case Nil
  then show ?case by simp
next
  case (Cons j js)
  from Cons.prems(2) obtain st1 where
    step: "suites_loop unzip (join save_path (j_name j)) (j_suites j) st = Inr st1" and
    rest: "jobs_loop unzip save_path js st1 = Inr st'"
    by (auto split: sum.splits)
  from suites_loop_saved [OF Cons.prems(1) step] rest show ?case by (rule Cons.IH)
qed

lemma download_artifacts_saved:
  assumes "download_artifacts unzip jobs save_path files0 = Inr st"
  shows "saved st"
proof -
  have "saved \<lparr>logcat_paths = [], files = files0, downloads = []\<rparr>" by (simp add: saved_def)
  then show ?thesis using assms [unfolded download_artifacts_def] by (rule jobs_loop_saved)
qed

subsection \<open>What is downloaded\<close>

lemma test_artifacts_mem:
  "a \<in> set (test_artifacts t) \<longleftrightarrow> (\<exists>ty \<in> set artifact_types. a \<in> set (t_artifacts t ty))"
  by (auto simp: test_artifacts_def)

lemma suite_artifacts_mem:
  "a \<in> set (suite_artifacts s) \<longleftrightarrow> (\<exists>t \<in> set (s_tests s). a \<in> set (test_artifacts t))"
  by (auto simp: suite_artifacts_def)

lemma job_artifacts_mem:
  "a \<in> set (job_artifacts j) \<longleftrightarrow>
     (\<exists>s \<in> set (j_suites j). s_name s = ''Tests Suite'' \<and> a \<in> set (suite_artifacts s))"
  by (auto simp: job_artifacts_def)

lemma fetches_mem:
  "(url, file) \<in> set (fetches path_to as) \<longleftrightarrow>
     (\<exists>a \<in> set as. wanted a \<and> url = a_url a \<and> file = artifact_save_path path_to a)"
  by (auto simp: fetches_def)

lemma expected_downloads_mem:
  "(url, file) \<in> set (expected_downloads jobs save_path) \<longleftrightarrow>
     (\<exists>j \<in> set jobs. (url, file) \<in> set (fetches (join save_path (j_name j)) (job_artifacts j)))"
  by (auto simp: expected_downloads_def)

lemma expected_downloads_iff:
  "(url, file) \<in> set (expected_downloads jobs save_path) \<longleftrightarrow>
     (\<exists>j \<in> set jobs. \<exists>s \<in> set (j_suites j). \<exists>t \<in> set (s_tests s).
        \<exists>ty \<in> set artifact_types. \<exists>a \<in> set (t_artifacts t ty).
          s_name s = ''Tests Suite''
          \<and> (endswith (filename a) ''.logcat'' \<or> endswith (filename a) ''.zip'')
          \<and> url = a_url a \<and> file = join (join save_path (j_name j)) (filename a))"
  unfolding expected_downloads_mem fetches_mem wanted_def is_logcat_def is_zip_def
    artifact_save_path_def Bex_def job_artifacts_mem suite_artifacts_mem test_artifacts_mem
  by blast

lemma logcat_encounters_fetched:
  "set (logcat_encounters jobs save_path) \<subseteq> snd ` set (expected_downloads jobs save_path)"
  unfolding logcat_encounters_def expected_downloads_def logcat_files_def fetches_def wanted_def
  by force

lemma subseq_set: "subseq xs ys \<Longrightarrow> set xs \<subseteq> set ys"
  by (auto elim: list_emb_set)

text \<open>
  C6. When \<^verbatim>\<open>download_artifacts\<close> returns, the downloads it has made are, in order, the
  artifacts met under the suites named \<^verbatim>\<open>Tests Suite\<close> whose file name ends in \<^verbatim>\<open>.logcat\<close> or
  \<^verbatim>\<open>.zip\<close>, each written to the file of that name in the directory of its job; nothing else
  is downloaded, every path in the list returned is the file of one of these downloads, and
  the file of every download is there at the end. The step for one artifact writes the
  bytes of a logcat artifact to its file and changes no other file, it writes the bytes of a
  zip artifact to its file and hands the file to \<^verbatim>\<open>unzip_and_copy\<close>, and it leaves the state
  alone for any other artifact.
\<close>

theorem downloads_exactly:
  assumes "download_artifacts unzip jobs save_path files0 = Inr st"
  shows "downloads st = expected_downloads jobs save_path
       \<and> (\<forall>url dest. (url, dest) \<in> set (downloads st) \<longleftrightarrow>
            (\<exists>j \<in> set jobs. \<exists>s \<in> set (j_suites j). \<exists>t \<in> set (s_tests s).
               \<exists>ty \<in> set artifact_types. \<exists>a \<in> set (t_artifacts t ty).
                 s_name s = ''Tests Suite''
                 \<and> (endswith (filename a) ''.logcat'' \<or> endswith (filename a) ''.zip'')
                 \<and> url = a_url a \<and> dest = join (join save_path (j_name j)) (filename a)))
       \<and> set (logcat_paths st) \<subseteq> snd ` set (downloads st)
       \<and> (\<forall>(url, dest) \<in> set (downloads st). read_file (files st) dest \<noteq> None)
       \<and> (\<forall>path_to a v s v' s'. artifact_step unzip path_to a (v, s) = Inr (v', s') \<longrightarrow>
            (if is_zip a
             then unzip_and_copy unzip
                    (write_file (files s) (join path_to (filename a)) (a_content a))
                    (join path_to (filename a)) = Inr (v', files s')
             else if is_logcat a
             then files s' = write_file (files s) (join path_to (filename a)) (a_content a)
             else s' = s))"
proof -
  have d: "downloads st = expected_downloads jobs save_path"
    using assms by (rule download_artifacts_adds(1))
  have "subseq (logcat_paths st) (logcat_encounters jobs save_path)"
    using assms by (rule download_artifacts_adds(2))
  then have "set (logcat_paths st) \<subseteq> set (logcat_encounters jobs save_path)"
    by (rule subseq_set)
  with logcat_encounters_fetched have l: "set (logcat_paths st) \<subseteq> snd ` set (downloads st)"
    unfolding d by blast
  have "saved st" using assms by (rule download_artifacts_saved)
  then have f: "\<forall>(url, dest) \<in> set (downloads st). read_file (files st) dest \<noteq> None"
    by (auto simp: saved_def)
  have w: "if is_zip a
             then unzip_and_copy unzip
                    (write_file (files s) (join path_to (filename a)) (a_content a))
                    (join path_to (filename a)) = Inr (v', files s')
             else if is_logcat a
             then files s' = write_file (files s) (join path_to (filename a)) (a_content a)
             else s' = s"
    if "artifact_step unzip path_to a (v, s) = Inr (v', s')" for path_to a v s v' s'
    using artifact_step_files [OF that] by (simp add: wanted_def artifact_save_path_def)
  have e: "\<forall>url dest. (url, dest) \<in> set (downloads st) \<longleftrightarrow>
            (\<exists>j \<in> set jobs. \<exists>s \<in> set (j_suites j). \<exists>t \<in> set (s_tests s).
               \<exists>ty \<in> set artifact_types. \<exists>a \<in> set (t_artifacts t ty).
                 s_name s = ''Tests Suite''
                 \<and> (endswith (filename a) ''.logcat'' \<or> endswith (filename a) ''.zip'')
                 \<and> url = a_url a \<and> dest = join (join save_path (j_name j)) (filename a))"
    unfolding d by (simp only: expected_downloads_iff simp_thms)
  from w have w': "\<forall>path_to a v s v' s'. artifact_step unzip path_to a (v, s) = Inr (v', s') \<longrightarrow>
            (if is_zip a
             then unzip_and_copy unzip
                    (write_file (files s) (join path_to (filename a)) (a_content a))
                    (join path_to (filename a)) = Inr (v', files s')
             else if is_logcat a
             then files s' = write_file (files s) (join path_to (filename a)) (a_content a)
             else s' = s)"
    by blast
  from d e l f w' show ?thesis by (intro conjI)
qed

theorem downloads_exactly_witness:
  "\<exists>st. download_artifacts report_only
           [job_of ''Pixel 4'' ''Tests Suite'' together, job_of ''Pixel 5'' ''Setup Suite'' together]
           ''/w/run'' empty_disk = Inr st
       \<and> downloads st
           = [(''https://host/1'', ''/w/run/Pixel 4/CUSTOMER_ARTIFACT_Customer Artifacts.zip''),
              (''https://host/2'', ''/w/run/Pixel 4/DEVICE_LOG_Logcat.logcat'')]
       \<and> read_file (files st) ''/w/run/Pixel 4/CUSTOMER_ARTIFACT_Customer Artifacts.zip'' \<noteq> None
       \<and> read_file (files st) ''/w/run/Pixel 4/DEVICE_LOG_Logcat.logcat'' = Some ''log''
       \<and> read_file (files st) ''/w/run/Pixel 4/VIDEO_Video.mp4'' = None
       \<and> (\<exists>s'. artifact_step report_only ''/w/run/Pixel 4'' device_log
                  (True, \<lparr>logcat_paths = [], files = empty_disk, downloads = []\<rparr>)
                = Inr (True, s')
              \<and> files s' = write_file empty_disk ''/w/run/Pixel 4/DEVICE_LOG_Logcat.logcat'' ''log'')"
proof -
  let ?jobs = "[job_of ''Pixel 4'' ''Tests Suite'' together,
                job_of ''Pixel 5'' ''Setup Suite'' together]"
  let ?zip = "''/w/run/Pixel 4/CUSTOMER_ARTIFACT_Customer Artifacts.zip''"
  let ?log = "''/w/run/Pixel 4/DEVICE_LOG_Logcat.logcat''"
  let ?S0 = "\<lparr>logcat_paths = [], files = empty_disk, downloads = []\<rparr>"
  have "case download_artifacts report_only ?jobs ''/w/run'' empty_disk of
          Inl e \<Rightarrow> False
        | Inr st \<Rightarrow> read_file (files st) ?log = Some ''log''
                  \<and> read_file (files st) ''/w/run/Pixel 4/VIDEO_Video.mp4'' = None"
    by code_simp
  then obtain st where
    eq: "download_artifacts report_only ?jobs ''/w/run'' empty_disk = Inr st" and
    c1: "read_file (files st) ?log = Some ''log''" and
    c2: "read_file (files st) ''/w/run/Pixel 4/VIDEO_Video.mp4'' = None"
    by (auto split: sum.splits)
  have x: "expected_downloads ?jobs ''/w/run'' = [(''https://host/1'', ?zip), (''https://host/2'', ?log)]"
    by code_simp
  have "case artifact_step report_only ''/w/run/Pixel 4'' device_log (True, ?S0) of
          Inl e \<Rightarrow> False | Inr (v, s) \<Rightarrow> v"
    by code_simp
  then obtain s' where
    step: "artifact_step report_only ''/w/run/Pixel 4'' device_log (True, ?S0) = Inr (True, s')"
    by (auto split: sum.splits)
  have k: "\<not> is_zip device_log \<and> is_logcat device_log
      \<and> join ''/w/run/Pixel 4'' (filename device_log) = ?log \<and> a_content device_log = ''log''"
    by code_simp
  note inst = downloads_exactly [OF eq]
  note d = inst [THEN conjunct1]
  note f = inst [THEN conjunct2, THEN conjunct2, THEN conjunct2, THEN conjunct1]
  note w = inst [THEN conjunct2, THEN conjunct2, THEN conjunct2, THEN conjunct2,
      THEN spec, THEN spec, THEN spec, THEN spec, THEN spec, THEN spec, THEN mp, OF step]
  from d have d': "downloads st = [(''https://host/1'', ?zip), (''https://host/2'', ?log)]"
    by (simp only: x)
  have "(''https://host/1'', ?zip) \<in> set (downloads st)" by (simp only: d' list.set_intros)
  with f have z: "read_file (files st) ?zip \<noteq> None" by blast
  from w k have s: "files s' = write_file empty_disk ?log ''log''" by simp
  from step s have "\<exists>s'. artifact_step report_only ''/w/run/Pixel 4'' device_log (True, ?S0)
                = Inr (True, s') \<and> files s' = write_file empty_disk ?log ''log''"
    by blast
  with eq d' z c1 c2 show ?thesis by blast
qed

subsection \<open>What is recorded\<close>

lemma logcat_encounters_ends:
  assumes "p \<in> set (logcat_encounters jobs save_path)"
  shows "endswith p ''.logcat''"
proof -
  from assms obtain j where
    "p \<in> set (logcat_files (join save_path (j_name j)) (job_artifacts j))"
    by (auto simp: logcat_encounters_def)
  then obtain a where "p = artifact_save_path (join save_path (j_name j)) a" "is_logcat a"
    by (auto simp: logcat_files_def)
  then show ?thesis by (simp add: artifact_save_path_def is_logcat_def endswith_join)
qed

lemma artifacts_loop_unwanted:
  "\<forall>a \<in> set as. \<not> wanted a \<Longrightarrow> artifacts_loop unzip path_to as vs = Inr vs"
  by (induction as) (simp_all add: artifact_step_unwanted)

lemma types_loop_unwanted:
  "\<forall>ty \<in> set tys. \<forall>a \<in> set (t_artifacts t ty). \<not> wanted a \<Longrightarrow>
     types_loop unzip path_to t tys st = Inr st"
  by (induction tys) (simp_all add: artifacts_loop_unwanted)

lemma tests_loop_unwanted:
  "\<forall>t \<in> set ts. \<forall>a \<in> set (test_artifacts t). \<not> wanted a \<Longrightarrow>
     tests_loop unzip path_to ts st = Inr st"
proof (induction ts)
  case Nil
  then show ?case by simp
next
  case (Cons t ts)
  then have "\<forall>ty \<in> set artifact_types. \<forall>a \<in> set (t_artifacts t ty). \<not> wanted a"
    by (auto simp: test_artifacts_mem)
  then have "types_loop unzip path_to t artifact_types st = Inr st"
    by (rule types_loop_unwanted)
  with Cons show ?case by simp
qed

lemma suites_loop_unwanted:
  "\<forall>s \<in> set ss. s_name s = ''Tests Suite'' \<longrightarrow> (\<forall>a \<in> set (suite_artifacts s). \<not> wanted a) \<Longrightarrow>
     suites_loop unzip path_to ss st = Inr st"
proof (induction ss)
  case Nil
  then show ?case by simp
next
  case (Cons s ss)
  show ?case
  proof (cases "s_name s = ''Tests Suite''")
    case True
    with Cons.prems have "\<forall>t \<in> set (s_tests s). \<forall>a \<in> set (test_artifacts t). \<not> wanted a"
      by (auto simp: suite_artifacts_mem)
    then have "tests_loop unzip path_to (s_tests s) st = Inr st"
      by (rule tests_loop_unwanted)
    with Cons True show ?thesis by simp
  next
    case False
    with Cons show ?thesis by simp
  qed
qed

lemma jobs_loop_append:
  "jobs_loop unzip save_path (js1 @ js2) st
     = (case jobs_loop unzip save_path js1 st of
          Inl e \<Rightarrow> Inl e
        | Inr st1 \<Rightarrow> jobs_loop unzip save_path js2 st1)"
  by (induction js1 arbitrary: st) (simp_all split: sum.splits)

lemma jobs_loop_skip:
  assumes "\<forall>a \<in> set (job_artifacts j). \<not> wanted a"
  shows "jobs_loop unzip save_path (js1 @ j # js2) st = jobs_loop unzip save_path (js1 @ js2) st"
proof -
  from assms have "\<forall>s \<in> set (j_suites j). s_name s = ''Tests Suite''
      \<longrightarrow> (\<forall>a \<in> set (suite_artifacts s). \<not> wanted a)"
    by (auto simp: job_artifacts_mem)
  then have "suites_loop unzip (join save_path (j_name j)) (j_suites j) st1 = Inr st1" for st1
    by (rule suites_loop_unwanted)
  then have "jobs_loop unzip save_path (j # js2) st1 = jobs_loop unzip save_path js2 st1" for st1
    by simp
  then show ?thesis by (simp add: jobs_loop_append split: sum.splits)
qed

text \<open>
  C7. When \<^verbatim>\<open>download_artifacts\<close> returns, the list it returns is a subsequence of the files
  of the logcat artifacts in the order they were met, and each of its paths ends in
  \<^verbatim>\<open>.logcat\<close> and not in \<^verbatim>\<open>.zip\<close>. The loop over the artifacts of a category appends exactly
  the files of the logcat artifacts met while \<^verbatim>\<open>is_valid_test\<close> was true. A job none of whose
  artifacts has a file name ending in \<^verbatim>\<open>.logcat\<close> or \<^verbatim>\<open>.zip\<close> changes nothing: the result is
  the same as without the job.
\<close>

theorem logcat_paths_recorded:
  "(download_artifacts unzip jobs save_path files0 = Inr st \<longrightarrow>
      subseq (logcat_paths st) (logcat_encounters jobs save_path)
      \<and> (\<forall>p \<in> set (logcat_paths st). endswith p ''.logcat'' \<and> \<not> endswith p ''.zip''))
   \<and> (artifacts_loop unzip path_to as (v, s) = Inr (v', s') \<longrightarrow>
        logcat_paths s' = logcat_paths s @ recorded unzip path_to as (v, s))
   \<and> ((\<forall>a \<in> set (job_artifacts j).
          \<not> endswith (filename a) ''.logcat'' \<and> \<not> endswith (filename a) ''.zip'') \<longrightarrow>
        download_artifacts unzip (js1 @ j # js2) save_path files0
          = download_artifacts unzip (js1 @ js2) save_path files0)"
proof (intro conjI impI)
  assume ret: "download_artifacts unzip jobs save_path files0 = Inr st"
  then show sub: "subseq (logcat_paths st) (logcat_encounters jobs save_path)"
    by (rule download_artifacts_adds(2))
  show "\<forall>p \<in> set (logcat_paths st). endswith p ''.logcat'' \<and> \<not> endswith p ''.zip''"
  proof
    fix p assume "p \<in> set (logcat_paths st)"
    with subseq_set [OF sub] have "p \<in> set (logcat_encounters jobs save_path)" by blast
    then have "endswith p ''.logcat''" by (rule logcat_encounters_ends)
    then show "endswith p ''.logcat'' \<and> \<not> endswith p ''.zip''"
      using logcat_not_zip by blast
  qed
next
  assume "artifacts_loop unzip path_to as (v, s) = Inr (v', s')"
  from artifacts_loop_effect [OF this]
  show "logcat_paths s' = logcat_paths s @ recorded unzip path_to as (v, s)" by simp
next
  assume "\<forall>a \<in> set (job_artifacts j).
          \<not> endswith (filename a) ''.logcat'' \<and> \<not> endswith (filename a) ''.zip''"
  then have "\<forall>a \<in> set (job_artifacts j). \<not> wanted a"
    by (simp add: wanted_def is_logcat_def is_zip_def)
  then show "download_artifacts unzip (js1 @ j # js2) save_path files0
          = download_artifacts unzip (js1 @ js2) save_path files0"
    unfolding download_artifacts_def by (rule jobs_loop_skip)
qed

theorem logcat_paths_recorded_witness:
  "\<exists>st v' s'.
     download_artifacts report_only [job_of ''Pixel 4'' ''Tests Suite'' apart] ''/w/run'' empty_disk
       = Inr st
   \<and> logcat_paths st = [''/w/run/Pixel 4/DEVICE_LOG_Logcat.logcat'']
   \<and> subseq (logcat_paths st) [''/w/run/Pixel 4/DEVICE_LOG_Logcat.logcat'']
   \<and> endswith ''/w/run/Pixel 4/DEVICE_LOG_Logcat.logcat'' ''.logcat''
   \<and> \<not> endswith ''/w/run/Pixel 4/DEVICE_LOG_Logcat.logcat'' ''.zip''
   \<and> artifacts_loop report_only ''/w/run/Pixel 4'' [device_log, skipped_zip, device_log]
         (True, \<lparr>logcat_paths = [], files = empty_disk, downloads = []\<rparr>) = Inr (v', s')
   \<and> logcat_paths s' = [''/w/run/Pixel 4/DEVICE_LOG_Logcat.logcat'']
   \<and> download_artifacts report_only
         ([job_of ''Pixel 4'' ''Tests Suite'' apart] @ job_of ''Pixel 5'' ''Tests Suite'' (\<lambda>ty. [video]) # [])
         ''/w/run'' empty_disk
       = download_artifacts report_only ([job_of ''Pixel 4'' ''Tests Suite'' apart] @ [])
           ''/w/run'' empty_disk"
proof -
  let ?J = "job_of ''Pixel 4'' ''Tests Suite'' apart"
  let ?JV = "job_of ''Pixel 5'' ''Tests Suite'' (\<lambda>ty. [video])"
  let ?S0 = "\<lparr>logcat_paths = [], files = empty_disk, downloads = []\<rparr>"
  let ?as = "[device_log, skipped_zip, device_log]"
  let ?X = "''/w/run/Pixel 4/DEVICE_LOG_Logcat.logcat''"
  have "case download_artifacts report_only [?J] ''/w/run'' empty_disk of
          Inl e \<Rightarrow> False | Inr st \<Rightarrow> logcat_paths st = [?X]"
    by code_simp
  then obtain st where
    eq: "download_artifacts report_only [?J] ''/w/run'' empty_disk = Inr st" and
    paths: "logcat_paths st = [?X]"
    by (auto split: sum.splits)
  have "case artifacts_loop report_only ''/w/run/Pixel 4'' ?as (True, ?S0) of
          Inl e \<Rightarrow> False | Inr vs \<Rightarrow> True"
    by code_simp
  then obtain v' s' where
    loop: "artifacts_loop report_only ''/w/run/Pixel 4'' ?as (True, ?S0) = Inr (v', s')"
    by (auto split: sum.splits)
  have none: "\<forall>a \<in> set (job_artifacts ?JV).
      \<not> endswith (filename a) ''.logcat'' \<and> \<not> endswith (filename a) ''.zip''"
    by code_simp
  have enc: "logcat_encounters [?J] ''/w/run'' = [?X]" by code_simp
  have rec: "recorded report_only ''/w/run/Pixel 4'' ?as (True, ?S0) = [?X]" by code_simp
  note inst = logcat_paths_recorded [of report_only "[?J]" "''/w/run''" empty_disk st
      "''/w/run/Pixel 4''" ?as True ?S0 v' s' ?JV "[?J]" "[]"]
  note first = inst [THEN conjunct1, THEN mp, OF eq]
  note a = first [THEN conjunct1] and b = first [THEN conjunct2]
  note c = inst [THEN conjunct2, THEN conjunct1, THEN mp, OF loop]
  note d = inst [THEN conjunct2, THEN conjunct2, THEN mp, OF none]
  have "?X \<in> set (logcat_paths st)" by (simp only: paths list.set_intros)
  with b have e: "endswith ?X ''.logcat'' \<and> \<not> endswith ?X ''.zip''" by (rule bspec)
  from a have f: "subseq (logcat_paths st) [?X]" by (simp only: enc)
  from c have g: "logcat_paths s' = [?X]" by (simp only: rec dl_state.simps append_Nil)
  have "download_artifacts report_only [?J] ''/w/run'' empty_disk = Inr st
   \<and> logcat_paths st = [?X]
   \<and> subseq (logcat_paths st) [?X]
   \<and> endswith ?X ''.logcat''
   \<and> \<not> endswith ?X ''.zip''
   \<and> artifacts_loop report_only ''/w/run/Pixel 4'' ?as (True, ?S0) = Inr (v', s')
   \<and> logcat_paths s' = [?X]
   \<and> download_artifacts report_only ([?J] @ ?JV # []) ''/w/run'' empty_disk
       = download_artifacts report_only ([?J] @ []) ''/w/run'' empty_disk"
    using eq paths f e [THEN conjunct1] e [THEN conjunct2] loop g d
    by (intro conjI)
  then show ?thesis by (intro exI)
qed

subsection \<open>The scope of the validity flag\<close>

lemma artifacts_loop_no_zip:
  "artifacts_loop unzip path_to as (v, st) = Inr (v', st') \<Longrightarrow> \<forall>a \<in> set as. \<not> is_zip a \<Longrightarrow>
     v' = v \<and> logcat_paths st' = logcat_paths st @ (if v then logcat_files path_to as else [])"
proof (induction as arbitrary: v st)
  case Nil
  then show ?case by (simp add: logcat_files_def)
next
  case (Cons a as)
  from Cons.prems(1) obtain v1 st1 where
    step: "artifact_step unzip path_to a (v, st) = Inr (v1, st1)" and
    rest: "artifacts_loop unzip path_to as (v1, st1) = Inr (v', st')"
    by (auto split: sum.splits)
  from Cons.prems(2) have nz: "\<not> is_zip a" "\<forall>a \<in> set as. \<not> is_zip a" by simp_all
  from artifact_step_effect(3) [OF step nz(1)] have v1: "v1 = v" .
  from artifact_step_effect(1) [OF step] have
    p1: "logcat_paths st1
           = logcat_paths st @ (if v \<and> is_logcat a then [artifact_save_path path_to a] else [])" .
  from Cons.IH [OF rest nz(2)] have
    "v' = v1" "logcat_paths st' = logcat_paths st1 @ (if v1 then logcat_files path_to as else [])"
    by simp_all
  with v1 p1 show ?case by (simp add: logcat_files_Cons)
qed

lemma types_loop_append:
  "types_loop unzip path_to t (tys @ tys') st
     = (case types_loop unzip path_to t tys st of
          Inl e \<Rightarrow> Inl e
        | Inr st1 \<Rightarrow> types_loop unzip path_to t tys' st1)"
proof (induction tys arbitrary: st)
  case Nil
  show ?case by simp
next
  case (Cons ty tys)
  show ?case
  proof (cases "artifacts_loop unzip path_to (t_artifacts t ty) (True, st)")
    case (Inl e)
    then show ?thesis by simp
  next
    case (Inr vs)
    obtain v st1 where "vs = (v, st1)" by (cases vs)
    with Inr Cons.IH [of st1] show ?thesis by simp
  qed
qed

lemma artifacts_loop_no_zip_returns:
  "\<forall>a \<in> set as. \<not> is_zip a \<Longrightarrow>
     \<exists>st'. artifacts_loop unzip path_to as (v, st) = Inr (v, st')
          \<and> logcat_paths st' = logcat_paths st @ (if v then logcat_files path_to as else [])"
proof (induction as arbitrary: st)
  case Nil
  then show ?case by (simp add: logcat_files_def)
next
  case (Cons a as)
  from Cons.prems have nz: "\<not> is_zip a" "\<forall>a \<in> set as. \<not> is_zip a" by simp_all
  from nz(1) have "\<exists>st1. artifact_step unzip path_to a (v, st) = Inr (v, st1)"
    by (simp add: artifact_step_def Let_def)
  then obtain st1 where
    step: "artifact_step unzip path_to a (v, st) = Inr (v, st1)"
    by blast
  from artifact_step_effect(1) [OF step] have
    p1: "logcat_paths st1
           = logcat_paths st @ (if v \<and> is_logcat a then [artifact_save_path path_to a] else [])" .
  from Cons.IH [OF nz(2), of st1] obtain st' where
    "artifacts_loop unzip path_to as (v, st1) = Inr (v, st')"
    "logcat_paths st' = logcat_paths st1 @ (if v then logcat_files path_to as else [])"
    by blast
  with step p1 show ?case by (simp add: logcat_files_Cons)
qed

text \<open>
  C1, as amended. The flag \<^verbatim>\<open>is_valid_test\<close> belongs to one artifact category of one test.
  Once it is false, the logcat artifacts that follow in the same category are not recorded,
  as long as no further zip artifact sets it again. Each category starts from a true flag:
  in a category that has no zip artifact, every logcat artifact is recorded, whatever the
  categories before it did. A zip artifact sets the flag to what \<^verbatim>\<open>unzip_and_copy\<close> returns
  for its file: of the logcat artifacts that follow it in the category, up to the next zip
  artifact, none is recorded when the result is false, and all are when it is true.
\<close>

theorem validity_flag_per_category:
  "(artifacts_loop unzip path_to as (False, st) = Inr (v', st') \<and> (\<forall>a \<in> set as. \<not> is_zip a)
      \<longrightarrow> v' = False \<and> logcat_paths st' = logcat_paths st)
   \<and> (types_loop unzip path_to t (tys @ [ty]) st = Inr st2
        \<and> (\<forall>a \<in> set (t_artifacts t ty). \<not> is_zip a)
      \<longrightarrow> (\<exists>st1. types_loop unzip path_to t tys st = Inr st1
             \<and> logcat_paths st2 = logcat_paths st1 @ logcat_files path_to (t_artifacts t ty)))
   \<and> (is_zip z
        \<and> unzip_and_copy unzip
             (write_file (files st) (artifact_save_path path_to z) (a_content z))
             (artifact_save_path path_to z) = Inr (valid, files2)
        \<and> (\<forall>a \<in> set post. \<not> is_zip a)
      \<longrightarrow> (\<exists>st3. artifacts_loop unzip path_to (z # post) (v, st) = Inr (valid, st3)
             \<and> logcat_paths st3
                 = logcat_paths st @ (if valid then logcat_files path_to post else [])))"
proof -
  have first: "v' = False \<and> logcat_paths st' = logcat_paths st"
    if 1: "artifacts_loop unzip path_to as (False, st) = Inr (v', st')"
      and 2: "\<forall>a \<in> set as. \<not> is_zip a"
    using artifacts_loop_no_zip [OF 1 2] by simp
  have second: "\<exists>st1. types_loop unzip path_to t tys st = Inr st1
             \<and> logcat_paths st2 = logcat_paths st1 @ logcat_files path_to (t_artifacts t ty)"
    if run: "types_loop unzip path_to t (tys @ [ty]) st = Inr st2"
      and nz: "\<forall>a \<in> set (t_artifacts t ty). \<not> is_zip a"
  proof -
    from run have split: "(case types_loop unzip path_to t tys st of
          Inl e \<Rightarrow> Inl e
        | Inr st1 \<Rightarrow> types_loop unzip path_to t [ty] st1) = Inr st2"
      by (simp only: types_loop_append)
    obtain st1 where
      before: "types_loop unzip path_to t tys st = Inr st1" and
      after: "types_loop unzip path_to t [ty] st1 = Inr st2"
    proof (cases "types_loop unzip path_to t tys st")
      case (Inl e)
      with split show ?thesis by simp
    next
      case (Inr st1)
      with split have "types_loop unzip path_to t [ty] st1 = Inr st2" by simp
      with Inr show ?thesis by (rule that)
    qed
    obtain v where
      loop: "artifacts_loop unzip path_to (t_artifacts t ty) (True, st1) = Inr (v, st2)"
    proof (cases "artifacts_loop unzip path_to (t_artifacts t ty) (True, st1)")
      case (Inl e)
      with after show ?thesis by simp
    next
      case (Inr vs)
      obtain v st3 where vs: "vs = (v, st3)" by (cases vs)
      with Inr after have "st3 = st2" by simp
      with Inr vs show ?thesis by (intro that [of v]) simp
    qed
    from artifacts_loop_no_zip [OF loop nz]
    have "logcat_paths st2 = logcat_paths st1 @ logcat_files path_to (t_artifacts t ty)"
      by simp
    with before show ?thesis by (intro exI conjI)
  qed
  have third: "\<exists>st3. artifacts_loop unzip path_to (z # post) (v, st) = Inr (valid, st3)
             \<and> logcat_paths st3
                 = logcat_paths st @ (if valid then logcat_files path_to post else [])"
    if z: "is_zip z"
      and u: "unzip_and_copy unzip
             (write_file (files st) (artifact_save_path path_to z) (a_content z))
             (artifact_save_path path_to z) = Inr (valid, files2)"
      and nz: "\<forall>a \<in> set post. \<not> is_zip a"
  proof -
    from artifact_step_zip [OF z u, of v] obtain st1 where
      step: "artifact_step unzip path_to z (v, st) = Inr (valid, st1)" and
      p1: "logcat_paths st1 = logcat_paths st"
      by blast
    from artifacts_loop_no_zip_returns [OF nz, of unzip path_to valid st1] obtain st3 where
      rest: "artifacts_loop unzip path_to post (valid, st1) = Inr (valid, st3)" and
      p3: "logcat_paths st3
             = logcat_paths st1 @ (if valid then logcat_files path_to post else [])"
      by blast
    from step rest have "artifacts_loop unzip path_to (z # post) (v, st) = Inr (valid, st3)"
      by simp
    moreover from p1 p3 have "logcat_paths st3
        = logcat_paths st @ (if valid then logcat_files path_to post else [])"
      by simp
    ultimately show ?thesis by (intro exI conjI)
  qed
  have i1: "artifacts_loop unzip path_to as (False, st) = Inr (v', st')
      \<and> (\<forall>a \<in> set as. \<not> is_zip a)
    \<longrightarrow> v' = False \<and> logcat_paths st' = logcat_paths st"
  proof (rule impI)
    assume h: "artifacts_loop unzip path_to as (False, st) = Inr (v', st')
      \<and> (\<forall>a \<in> set as. \<not> is_zip a)"
    show "v' = False \<and> logcat_paths st' = logcat_paths st"
      by (rule first [OF h [THEN conjunct1] h [THEN conjunct2]])
  qed
  have i2: "types_loop unzip path_to t (tys @ [ty]) st = Inr st2
        \<and> (\<forall>a \<in> set (t_artifacts t ty). \<not> is_zip a)
    \<longrightarrow> (\<exists>st1. types_loop unzip path_to t tys st = Inr st1
             \<and> logcat_paths st2 = logcat_paths st1 @ logcat_files path_to (t_artifacts t ty))"
  proof (rule impI)
    assume h: "types_loop unzip path_to t (tys @ [ty]) st = Inr st2
        \<and> (\<forall>a \<in> set (t_artifacts t ty). \<not> is_zip a)"
    show "\<exists>st1. types_loop unzip path_to t tys st = Inr st1
             \<and> logcat_paths st2 = logcat_paths st1 @ logcat_files path_to (t_artifacts t ty)"
      by (rule second [OF h [THEN conjunct1] h [THEN conjunct2]])
  qed
  have i3: "is_zip z
        \<and> unzip_and_copy unzip
             (write_file (files st) (artifact_save_path path_to z) (a_content z))
             (artifact_save_path path_to z) = Inr (valid, files2)
        \<and> (\<forall>a \<in> set post. \<not> is_zip a)
      \<longrightarrow> (\<exists>st3. artifacts_loop unzip path_to (z # post) (v, st) = Inr (valid, st3)
             \<and> logcat_paths st3
                 = logcat_paths st @ (if valid then logcat_files path_to post else []))"
  proof (rule impI)
    assume h: "is_zip z
        \<and> unzip_and_copy unzip
             (write_file (files st) (artifact_save_path path_to z) (a_content z))
             (artifact_save_path path_to z) = Inr (valid, files2)
        \<and> (\<forall>a \<in> set post. \<not> is_zip a)"
    show "\<exists>st3. artifacts_loop unzip path_to (z # post) (v, st) = Inr (valid, st3)
             \<and> logcat_paths st3
                 = logcat_paths st @ (if valid then logcat_files path_to post else [])"
      by (rule third [OF h [THEN conjunct1] h [THEN conjunct2, THEN conjunct1]
            h [THEN conjunct2, THEN conjunct2]])
  qed
  from i1 i2 i3 show ?thesis by (intro conjI)
qed

theorem validity_flag_per_category_witness:
  "\<exists>v' st' st2.
     artifacts_loop report_only ''/w/run/Pixel 4'' [device_log, video]
       (False, \<lparr>logcat_paths = [], files = empty_disk, downloads = []\<rparr>) = Inr (v', st')
   \<and> v' = False \<and> logcat_paths st' = []
   \<and> types_loop report_only ''/w/run/Pixel 4'' \<lparr>t_arn = ''arn:test'', t_artifacts = apart\<rparr>
         ([''FILE''] @ [''LOG'']) \<lparr>logcat_paths = [], files = empty_disk, downloads = []\<rparr>
       = Inr st2
   \<and> (\<exists>st1. types_loop report_only ''/w/run/Pixel 4'' \<lparr>t_arn = ''arn:test'', t_artifacts = apart\<rparr>
         [''FILE''] \<lparr>logcat_paths = [], files = empty_disk, downloads = []\<rparr> = Inr st1
        \<and> logcat_paths st2
            = logcat_paths st1 @ [''/w/run/Pixel 4/DEVICE_LOG_Logcat.logcat''])
   \<and> (\<exists>st3. artifacts_loop report_only ''/w/run/Pixel 4'' (skipped_zip # [device_log, video])
         (True, \<lparr>logcat_paths = [], files = empty_disk, downloads = []\<rparr>) = Inr (False, st3)
        \<and> logcat_paths st3 = [])
   \<and> (\<exists>st4. artifacts_loop report_only ''/w/run/Pixel 4'' (passed_zip # [device_log, video])
         (False, \<lparr>logcat_paths = [], files = empty_disk, downloads = []\<rparr>) = Inr (True, st4)
        \<and> logcat_paths st4 = [''/w/run/Pixel 4/DEVICE_LOG_Logcat.logcat''])"
proof -
  let ?S0 = "\<lparr>logcat_paths = [], files = empty_disk, downloads = []\<rparr>"
  let ?t = "\<lparr>t_arn = ''arn:test'', t_artifacts = apart\<rparr>"
  let ?p = "''/w/run/Pixel 4''"
  let ?as = "[device_log, video]"
  have "case artifacts_loop report_only ?p ?as (False, ?S0) of
          Inl e \<Rightarrow> False | Inr vs \<Rightarrow> True"
    by code_simp
  then obtain v' st' where
    loop: "artifacts_loop report_only ?p ?as (False, ?S0) = Inr (v', st')"
    by (cases "artifacts_loop report_only ?p ?as (False, ?S0)") auto
  have "case types_loop report_only ?p ?t ([''FILE''] @ [''LOG'']) ?S0 of
          Inl e \<Rightarrow> False | Inr st \<Rightarrow> True"
    by code_simp
  then obtain st2 where
    run: "types_loop report_only ?p ?t ([''FILE''] @ [''LOG'']) ?S0 = Inr st2"
    by (cases "types_loop report_only ?p ?t ([''FILE''] @ [''LOG'']) ?S0") auto
  have "case unzip_and_copy report_only
               (write_file (files ?S0) (artifact_save_path ?p skipped_zip) (a_content skipped_zip))
               (artifact_save_path ?p skipped_zip) of
          Inl e \<Rightarrow> False | Inr (valid, f) \<Rightarrow> \<not> valid"
    by code_simp
  then obtain f1 where
    u1: "unzip_and_copy report_only
               (write_file (files ?S0) (artifact_save_path ?p skipped_zip) (a_content skipped_zip))
               (artifact_save_path ?p skipped_zip) = Inr (False, f1)"
    by (auto split: sum.splits)
  have "case unzip_and_copy report_only
               (write_file (files ?S0) (artifact_save_path ?p passed_zip) (a_content passed_zip))
               (artifact_save_path ?p passed_zip) of
          Inl e \<Rightarrow> False | Inr (valid, f) \<Rightarrow> valid"
    by code_simp
  then obtain f2 where
    u2: "unzip_and_copy report_only
               (write_file (files ?S0) (artifact_save_path ?p passed_zip) (a_content passed_zip))
               (artifact_save_path ?p passed_zip) = Inr (True, f2)"
    by (auto split: sum.splits)
  have nz1: "\<forall>a \<in> set ?as. \<not> is_zip a" by code_simp
  have nz2: "\<forall>a \<in> set (t_artifacts ?t ''LOG''). \<not> is_zip a" by code_simp
  have z1: "is_zip skipped_zip" by code_simp
  have z2: "is_zip passed_zip" by code_simp
  have lf: "logcat_files ?p (t_artifacts ?t ''LOG'') = [''/w/run/Pixel 4/DEVICE_LOG_Logcat.logcat'']"
    by code_simp
  have lg: "logcat_files ?p ?as = [''/w/run/Pixel 4/DEVICE_LOG_Logcat.logcat'']"
    by code_simp
  note inst = validity_flag_per_category [of report_only ?p ?as ?S0 v' st' ?t "[''FILE'']"
      "''LOG''" st2]
  note a = inst [THEN conjunct1, THEN mp, OF conjI, OF loop nz1]
  note b = inst [THEN conjunct2, THEN conjunct1, THEN mp, OF conjI, OF run nz2]
  note c = validity_flag_per_category [of report_only ?p ?as ?S0 _ _ _ _ _ _ skipped_zip
      False f1 ?as True, THEN conjunct2, THEN conjunct2, THEN mp, OF conjI, OF z1 conjI,
      OF u1 nz1]
  note d = validity_flag_per_category [of report_only ?p ?as ?S0 _ _ _ _ _ _ passed_zip
      True f2 ?as False, THEN conjunct2, THEN conjunct2, THEN mp, OF conjI, OF z2 conjI,
      OF u2 nz1]
  from a have a': "v' = False \<and> logcat_paths st' = []" by (simp only: dl_state.simps)
  from b have b': "\<exists>st1. types_loop report_only ?p ?t [''FILE''] ?S0 = Inr st1
        \<and> logcat_paths st2 = logcat_paths st1 @ [''/w/run/Pixel 4/DEVICE_LOG_Logcat.logcat'']"
    by (simp only: lf)
  from c have c': "\<exists>st3. artifacts_loop report_only ?p (skipped_zip # ?as) (True, ?S0)
         = Inr (False, st3) \<and> logcat_paths st3 = []"
    by (simp only: dl_state.simps if_False append_Nil)
  from d have d': "\<exists>st4. artifacts_loop report_only ?p (passed_zip # ?as) (False, ?S0)
         = Inr (True, st4) \<and> logcat_paths st4 = [''/w/run/Pixel 4/DEVICE_LOG_Logcat.logcat'']"
    by (simp only: dl_state.simps if_True append_Nil lg)
  have "artifacts_loop report_only ?p ?as (False, ?S0) = Inr (v', st')
   \<and> v' = False \<and> logcat_paths st' = []
   \<and> types_loop report_only ?p ?t ([''FILE''] @ [''LOG'']) ?S0 = Inr st2
   \<and> (\<exists>st1. types_loop report_only ?p ?t [''FILE''] ?S0 = Inr st1
        \<and> logcat_paths st2 = logcat_paths st1 @ [''/w/run/Pixel 4/DEVICE_LOG_Logcat.logcat''])
   \<and> (\<exists>st3. artifacts_loop report_only ?p (skipped_zip # ?as) (True, ?S0)
         = Inr (False, st3) \<and> logcat_paths st3 = [])
   \<and> (\<exists>st4. artifacts_loop report_only ?p (passed_zip # ?as) (False, ?S0)
         = Inr (True, st4) \<and> logcat_paths st4 = [''/w/run/Pixel 4/DEVICE_LOG_Logcat.logcat''])"
    using loop a' [THEN conjunct1] a' [THEN conjunct2] run b' c' d' by (intro conjI)
  then show ?thesis by (intro exI)
qed

text \<open>
  The claim as stated fails: with the zip archive of a skipped test in the category
  \<^verbatim>\<open>FILE\<close> and a logcat file in the later category \<^verbatim>\<open>LOG\<close> of the same test, the logcat file
  is recorded. (With both in the category \<^verbatim>\<open>FILE\<close>, the archive first, it is not.)
\<close>

theorem validity_flag_counterexample:
  "returned_paths report_only [job_of ''Pixel 4'' ''Tests Suite'' apart] ''/w/run'' empty_disk
     = Some [''/w/run/Pixel 4/DEVICE_LOG_Logcat.logcat'']
   \<and> returned_paths report_only [job_of ''Pixel 4'' ''Tests Suite'' together] ''/w/run'' empty_disk
     = Some []"
  by code_simp

subsection \<open>The loop that waits for the run\<close>

lemma first_index:
  assumes "\<exists>k. \<not> P (k::nat)"
  shows "\<exists>n. (\<forall>k<n. P k) \<and> \<not> P n"
proof -
  from assms obtain k where "\<not> P k" by blast
  then have "\<not> P (LEAST n. \<not> P n)" by (rule LeastI)
  moreover have "\<forall>k < (LEAST n. \<not> P n). P k" using not_less_Least by blast
  ultimately show ?thesis by blast
qed

lemma run_poll_step:
  "run_poll answers run_arn i tr
     = (if continues (answers i)
        then run_poll answers run_arn (Suc i) (tr @ [GetRun run_arn, Sleep 10])
        else Some (answers i, tr @ [GetRun run_arn]))"
  by (subst run_poll.simps) (simp add: continues_def terminal_def split: sum.splits)

lemma run_rounds_Suc:
  "run_rounds run_arn (Suc n) = [GetRun run_arn, Sleep 10] @ run_rounds run_arn n"
  by (simp add: run_rounds_def)

lemma run_poll_stops:
  "\<forall>k<n. continues (answers (i + k)) \<Longrightarrow> \<not> continues (answers (i + n)) \<Longrightarrow>
     run_poll answers run_arn i tr
       = Some (answers (i + n), tr @ run_rounds run_arn n @ [GetRun run_arn])"
proof (induction n arbitrary: i tr)
  case 0
  then show ?case by (subst run_poll_step) (simp add: run_rounds_def)
next
  case (Suc n)
  from Suc.prems(1) have c: "continues (answers i)" by (metis add.right_neutral zero_less_Suc)
  have "\<forall>k<n. continues (answers (Suc i + k))"
  proof (intro allI impI)
    fix k assume "k < n"
    then have "Suc k < Suc n" by simp
    with Suc.prems(1) have "continues (answers (i + Suc k))" by blast
    then show "continues (answers (Suc i + k))" by simp
  qed
  moreover have "\<not> continues (answers (Suc i + n))" using Suc.prems(2) by simp
  ultimately have "run_poll answers run_arn (Suc i) (tr @ [GetRun run_arn, Sleep 10])
      = Some (answers (Suc i + n),
              (tr @ [GetRun run_arn, Sleep 10]) @ run_rounds run_arn n @ [GetRun run_arn])"
    by (rule Suc.IH)
  with c show ?case by (subst run_poll_step) (simp add: run_rounds_Suc)
qed

lemma run_poll_returns:
  assumes "run_poll answers0 run_arn0 i0 tr0 = Some y0"
  shows "\<exists>k. \<not> continues (answers0 (i0 + k))"
proof (rule run_poll.raw_induct
    [where P = "\<lambda>answers run_arn i tr y. \<exists>k. \<not> continues (answers (i + k))", OF _ assms])
  fix f :: "(nat \<Rightarrow> exn + string) \<Rightarrow> string \<Rightarrow> nat \<Rightarrow> event list
     \<Rightarrow> ((exn + string) \<times> event list) option"
  fix answers run_arn i tr y
  assume IH: "\<And>answers run_arn i tr y. f answers run_arn i tr = Some y
      \<Longrightarrow> \<exists>k. \<not> continues (answers (i + k))"
  assume eq: "(case answers i of
        Inl e \<Rightarrow> Some (Inl e, tr @ [GetRun run_arn])
      | Inr state \<Rightarrow>
          if state = ''COMPLETED'' \<or> state = ''ERRORED''
          then Some (Inr state, tr @ [GetRun run_arn])
          else f answers run_arn (Suc i) (tr @ [GetRun run_arn, Sleep 10])) = Some y"
  show "\<exists>k. \<not> continues (answers (i + k))"
  proof (cases "continues (answers i)")
    case False
    then have "\<not> continues (answers (i + 0))" by simp
    then show ?thesis by blast
  next
    case True
    with eq have "f answers run_arn (Suc i) (tr @ [GetRun run_arn, Sleep 10]) = Some y"
      by (auto simp: continues_def terminal_def split: sum.splits if_splits)
    then have "\<exists>k. \<not> continues (answers (Suc i + k))" by (rule IH)
    then obtain k where "\<not> continues (answers (Suc i + k))" by blast
    then have "\<not> continues (answers (i + Suc k))" by simp
    then show ?thesis by blast
  qed
qed

lemma run_poll_forever:
  assumes "\<forall>k. continues (answers (i + k))"
  shows "run_poll answers run_arn i tr = None"
proof (cases "run_poll answers run_arn i tr")
  case None
  then show ?thesis .
next
  case (Some y)
  from run_poll_returns [OF this] assms show ?thesis by blast
qed


lemma continues_status: "continues (Inr state) \<longleftrightarrow> \<not> terminal state"
  by (simp add: continues_def)

text \<open>
  C8. For a run whose \<^verbatim>\<open>get_run\<close> requests answer the statuses \<open>sts 0\<close>, \<open>sts 1\<close>, ..., the
  loop ends if and only if one of them is \<^verbatim>\<open>COMPLETED\<close> or \<^verbatim>\<open>ERRORED\<close>. When the first such
  status is the one numbered \<open>n\<close>, however large \<open>n\<close> is, the loop ends with it after \<open>n\<close>
  pauses of 10 and \<open>n + 1\<close> requests; when there is none, the loop never ends.
\<close>

theorem run_polling_terminates:
  "(run_poll (\<lambda>i. Inr (sts i)) run_arn 0 tr \<noteq> None \<longleftrightarrow> (\<exists>n. terminal (sts n)))
   \<and> ((\<forall>k<n. \<not> terminal (sts k)) \<and> terminal (sts n) \<longrightarrow>
        run_poll (\<lambda>i. Inr (sts i)) run_arn 0 tr
          = Some (Inr (sts n), tr @ run_rounds run_arn n @ [GetRun run_arn]))
   \<and> ((\<forall>k. \<not> terminal (sts k)) \<longrightarrow> run_poll (\<lambda>i. Inr (sts i)) run_arn 0 tr = None)"
proof -
  let ?a = "\<lambda>i. Inr (sts i) :: exn + string"
  have stops: "run_poll ?a run_arn 0 tr
          = Some (Inr (sts n), tr @ run_rounds run_arn n @ [GetRun run_arn])"
    if "\<forall>k<n. \<not> terminal (sts k)" and "terminal (sts n)" for n
  proof -
    from that have "\<forall>k<n. continues (?a (0 + k))" and "\<not> continues (?a (0 + n))"
      by (simp_all add: continues_status)
    then have "run_poll ?a run_arn 0 tr
       = Some (?a (0 + n), tr @ run_rounds run_arn n @ [GetRun run_arn])"
      by (rule run_poll_stops)
    then show ?thesis by simp
  qed
  have forever: "run_poll ?a run_arn 0 tr = None" if "\<forall>k. \<not> terminal (sts k)"
  proof -
    from that have "\<forall>k. continues (?a (0 + k))" by (simp add: continues_status)
    then show ?thesis by (rule run_poll_forever)
  qed
  have iff: "run_poll ?a run_arn 0 tr \<noteq> None \<longleftrightarrow> (\<exists>n. terminal (sts n))"
  proof
    assume "run_poll ?a run_arn 0 tr \<noteq> None"
    with forever show "\<exists>n. terminal (sts n)" by blast
  next
    assume "\<exists>n. terminal (sts n)"
    then have "\<exists>k. \<not> \<not> terminal (sts k)" by simp
    then obtain m where "\<forall>k<m. \<not> terminal (sts k)" and "\<not> \<not> terminal (sts m)"
      using first_index [of "\<lambda>k. \<not> terminal (sts k)"] by blast
    then have "run_poll ?a run_arn 0 tr
          = Some (Inr (sts m), tr @ run_rounds run_arn m @ [GetRun run_arn])"
      using stops by simp
    then show "run_poll ?a run_arn 0 tr \<noteq> None" by simp
  qed
  from iff stops forever show ?thesis by blast
qed

theorem run_polling_terminates_witness:
  "run_poll (\<lambda>i. Inr (if i < 2 then ''RUNNING'' else ''COMPLETED'')) ''arn:run'' 0 []
     = Some (Inr ''COMPLETED'',
             [GetRun ''arn:run'', Sleep 10, GetRun ''arn:run'', Sleep 10, GetRun ''arn:run''])
   \<and> run_poll (\<lambda>i. Inr ''RUNNING'') ''arn:run'' 0 [] = None"
proof -
  let ?sts = "\<lambda>i::nat. if i < 2 then ''RUNNING'' else ''COMPLETED''"
  have h1: "(\<forall>k<2. \<not> terminal (?sts k)) \<and> terminal (?sts 2)"
    by (simp add: terminal_def)
  have h2: "\<forall>k::nat. \<not> terminal ''RUNNING''" by (simp add: terminal_def)
  note one = run_polling_terminates [of ?sts "''arn:run''" "[]" 2,
      THEN conjunct2, THEN conjunct1, THEN mp, OF h1]
  note two = run_polling_terminates [of "\<lambda>i. ''RUNNING''" "''arn:run''" "[]" 0,
      THEN conjunct2, THEN conjunct2, THEN mp, OF h2]
  have r: "run_rounds ''arn:run'' 2 = [GetRun ''arn:run'', Sleep 10, GetRun ''arn:run'', Sleep 10]"
    by (simp add: run_rounds_def numeral_2_eq_2)
  from one have "run_poll (\<lambda>i. Inr (?sts i)) ''arn:run'' 0 []
     = Some (Inr ''COMPLETED'',
             [GetRun ''arn:run'', Sleep 10, GetRun ''arn:run'', Sleep 10, GetRun ''arn:run''])"
    by (simp add: r)
  with two show ?thesis by simp
qed

subsection \<open>Exceptions while waiting for the run\<close>








subsection \<open>The loop that waits for the upload\<close>

lemma upload_rounds_Suc:
  "upload_rounds upload_arn (Suc n) = [Sleep 5, GetUpload upload_arn] @ upload_rounds upload_arn n"
  by (simp add: upload_rounds_def)

lemma pending_status:
  "pending (Inr r) \<longleftrightarrow> u_status r \<noteq> ''FAILED'' \<and> u_status r \<noteq> ''SUCCEEDED''"
  by (simp add: pending_def)

lemma upload_poll_done:
  assumes "\<not> pending (Inr response)"
  shows "upload_poll answers upload_arn i response tr
           = Some (upload_end upload_arn (Inr response), tr)"
  using assms by (subst upload_poll.simps) (auto simp: pending_def upload_end_def)

lemma upload_poll_next:
  assumes "pending (Inr response)"
  shows "upload_poll answers upload_arn i response tr
           = (case answers i of
                Inl e \<Rightarrow> Some (Inl e, tr @ [Sleep 5, GetUpload upload_arn])
              | Inr response' \<Rightarrow>
                  upload_poll answers upload_arn (Suc i) response'
                    (tr @ [Sleep 5, GetUpload upload_arn]))"
  using assms by (subst upload_poll.simps) (simp add: pending_def)

lemma upload_poll_stops:
  "\<forall>k<n. pending (observed response (\<lambda>k. answers (i + k)) k) \<Longrightarrow>
   \<not> pending (observed response (\<lambda>k. answers (i + k)) n) \<Longrightarrow>
     upload_poll answers upload_arn i response tr
       = Some (upload_end upload_arn (observed response (\<lambda>k. answers (i + k)) n),
               tr @ upload_rounds upload_arn n)"
proof (induction n arbitrary: i response tr)
  case 0
  then have "\<not> pending (Inr response)" by (simp add: observed_def)
  then show ?case by (simp add: upload_poll_done observed_def upload_rounds_def)
next
  case (Suc n)
  from Suc.prems(1) have "pending (observed response (\<lambda>k. answers (i + k)) 0)" by blast
  then have p: "pending (Inr response)" by (simp add: observed_def)
  show ?case
  proof (cases "answers i")
    case (Inl e)
    have "n = 0"
    proof (rule ccontr)
      assume "n \<noteq> 0"
      then have "Suc 0 < Suc n" by simp
      with Suc.prems(1) have "pending (observed response (\<lambda>k. answers (i + k)) (Suc 0))"
        by blast
      with Inl show False by (simp add: observed_def pending_def)
    qed
    with Inl p show ?thesis
      by (simp add: upload_poll_next observed_def upload_end_def upload_rounds_def)
  next
    case (Inr r')
    have obs: "observed r' (\<lambda>k. answers (Suc i + k)) k
        = observed response (\<lambda>k. answers (i + k)) (Suc k)" for k
      using Inr by (cases k) (simp_all add: observed_def)
    have "\<forall>k<n. pending (observed r' (\<lambda>k. answers (Suc i + k)) k)"
    proof (intro allI impI)
      fix k assume "k < n"
      then have "Suc k < Suc n" by simp
      with Suc.prems(1) have "pending (observed response (\<lambda>k. answers (i + k)) (Suc k))"
        by blast
      then show "pending (observed r' (\<lambda>k. answers (Suc i + k)) k)" unfolding obs .
    qed
    moreover have "\<not> pending (observed r' (\<lambda>k. answers (Suc i + k)) n)"
      using Suc.prems(2) unfolding obs .
    ultimately have "upload_poll answers upload_arn (Suc i) r' (tr @ [Sleep 5, GetUpload upload_arn])
       = Some (upload_end upload_arn (observed r' (\<lambda>k. answers (Suc i + k)) n),
               (tr @ [Sleep 5, GetUpload upload_arn]) @ upload_rounds upload_arn n)"
      by (rule Suc.IH)
    then have "upload_poll answers upload_arn (Suc i) r' (tr @ [Sleep 5, GetUpload upload_arn])
       = Some (upload_end upload_arn (observed response (\<lambda>k. answers (i + k)) (Suc n)),
               (tr @ [Sleep 5, GetUpload upload_arn]) @ upload_rounds upload_arn n)"
      unfolding obs .
    then show ?thesis using p Inr
      by (simp add: upload_poll_next upload_rounds_Suc)
  qed
qed

lemma upload_poll_returns:
  assumes "upload_poll answers0 arn0 i0 r0 tr0 = Some y0"
  shows "\<exists>k. \<not> pending (observed r0 (\<lambda>k. answers0 (i0 + k)) k)"
proof (rule upload_poll.raw_induct
    [where P = "\<lambda>answers arn i r tr y. \<exists>k. \<not> pending (observed r (\<lambda>k. answers (i + k)) k)",
     OF _ assms])
  fix f :: "(nat \<Rightarrow> exn + upload) \<Rightarrow> string \<Rightarrow> nat \<Rightarrow> upload \<Rightarrow> event list
     \<Rightarrow> ((exn + string) \<times> event list) option"
  fix answers upload_arn i response tr y
  assume IH: "\<And>answers upload_arn i response tr y.
      f answers upload_arn i response tr = Some y
      \<Longrightarrow> \<exists>k. \<not> pending (observed response (\<lambda>k. answers (i + k)) k)"
  assume eq: "(if u_status response = ''FAILED'' then Some (Inl (failed_exn response), tr)
      else if u_status response = ''SUCCEEDED'' then Some (Inr upload_arn, tr)
      else
        (case answers i of
           Inl e \<Rightarrow> Some (Inl e, tr @ [Sleep 5, GetUpload upload_arn])
         | Inr response' \<Rightarrow>
             f answers upload_arn (Suc i) response'
               (tr @ [Sleep 5, GetUpload upload_arn]))) = Some y"
  show "\<exists>k. \<not> pending (observed response (\<lambda>k. answers (i + k)) k)"
  proof (cases "pending (Inr response)")
    case False
    then have "\<not> pending (observed response (\<lambda>k. answers (i + k)) 0)"
      by (simp add: observed_def)
    then show ?thesis by blast
  next
    case True
    show ?thesis
    proof (cases "answers i")
      case (Inl e)
      then have "\<not> pending (observed response (\<lambda>k. answers (i + k)) (Suc 0))"
        by (simp add: observed_def pending_def)
      then show ?thesis by blast
    next
      case (Inr r')
      with True eq have "f answers upload_arn (Suc i) r' (tr @ [Sleep 5, GetUpload upload_arn])
          = Some y"
        by (simp add: pending_def)
      then have "\<exists>k. \<not> pending (observed r' (\<lambda>k. answers (Suc i + k)) k)" by (rule IH)
      then obtain k where k: "\<not> pending (observed r' (\<lambda>k. answers (Suc i + k)) k)" by blast
      have "observed r' (\<lambda>k. answers (Suc i + k)) k
          = observed response (\<lambda>k. answers (i + k)) (Suc k)"
        using Inr by (cases k) (simp_all add: observed_def)
      with k have "\<not> pending (observed response (\<lambda>k. answers (i + k)) (Suc k))" by simp
      then show ?thesis by blast
    qed
  qed
qed

lemma upload_poll_cases:
  obtains (forever) "\<forall>k. pending (observed response answers k)"
      "upload_poll answers upload_arn 0 response tr = None"
  | (stops) n where "\<forall>k<n. pending (observed response answers k)"
      "\<not> pending (observed response answers n)"
      "upload_poll answers upload_arn 0 response tr
         = Some (upload_end upload_arn (observed response answers n),
                 tr @ upload_rounds upload_arn n)"
proof (cases "\<forall>k. pending (observed response answers k)")
  case True
  have "upload_poll answers upload_arn 0 response tr = None"
  proof (cases "upload_poll answers upload_arn 0 response tr")
    case None
    then show ?thesis .
  next
    case (Some y)
    from upload_poll_returns [OF this] True show ?thesis by simp
  qed
  with True show ?thesis by (rule forever)
next
  case False
  then have "\<exists>k. \<not> pending (observed response answers k)" by simp
  then obtain n where n: "\<forall>k<n. pending (observed response answers k)"
      "\<not> pending (observed response answers n)"
    using first_index [of "\<lambda>k. pending (observed response answers k)"] by blast
  then have "\<forall>k<n. pending (observed response (\<lambda>k. answers (0 + k)) k)"
    "\<not> pending (observed response (\<lambda>k. answers (0 + k)) n)" by simp_all
  then have "upload_poll answers upload_arn 0 response tr
       = Some (upload_end upload_arn (observed response (\<lambda>k. answers (0 + k)) n),
               tr @ upload_rounds upload_arn n)"
    by (rule upload_poll_stops)
  then have "upload_poll answers upload_arn 0 response tr
         = Some (upload_end upload_arn (observed response answers n),
                 tr @ upload_rounds upload_arn n)" by simp
  with n show ?thesis by (rule stops)
qed

subsection \<open>How \<^verbatim>\<open>upload_df_file\<close> ends\<close>

lemma upload_df_file_unfold:
  assumes "create_upload env = Inr r0" and "open_file env = Inr data" and "put env = Inr resp"
  shows "upload_df_file env unique file_name upload_type tr
     = (if \<not> ok resp
        then Some (Inl (Exception (put_prefix @ reason resp)),
                   tr @ upload_start unique file_name upload_type r0)
        else upload_poll (get_upload env) (u_arn r0) 0 r0
               (tr @ upload_start unique file_name upload_type r0))"
  using assms by (simp add: upload_df_file_def Let_def upload_start_def)

lemma upload_df_file_returns:
  assumes "upload_df_file env unique file_name upload_type tr = Some (Inr a, tr')"
  obtains r0 data resp where "create_upload env = Inr r0" and "open_file env = Inr data"
    and "put env = Inr resp" and "ok resp"
    and "upload_poll (get_upload env) (u_arn r0) 0 r0
           (tr @ upload_start unique file_name upload_type r0) = Some (Inr a, tr')"
proof (cases "create_upload env")
  case (Inl e)
  with assms show ?thesis by (simp add: upload_df_file_def Let_def)
next
  case r0: (Inr r0)
  show ?thesis
  proof (cases "open_file env")
    case (Inl e)
    with r0 assms show ?thesis by (simp add: upload_df_file_def Let_def)
  next
    case data: (Inr data)
    show ?thesis
    proof (cases "put env")
      case (Inl e)
      with r0 data assms show ?thesis by (simp add: upload_df_file_def Let_def)
    next
      case resp: (Inr resp)
      from assms have u: "(if \<not> ok resp
        then Some (Inl (Exception (put_prefix @ reason resp)),
                   tr @ upload_start unique file_name upload_type r0)
        else upload_poll (get_upload env) (u_arn r0) 0 r0
               (tr @ upload_start unique file_name upload_type r0)) = Some (Inr a, tr')"
        by (simp only: upload_df_file_unfold [OF r0 data resp])
      then have "ok resp" by (cases "ok resp") simp_all
      with u have "upload_poll (get_upload env) (u_arn r0) 0 r0
               (tr @ upload_start unique file_name upload_type r0) = Some (Inr a, tr')"
        by simp
      with r0 data resp \<open>ok resp\<close> show ?thesis by (rule that)
    qed
  qed
qed

lemma upload_end_ok:
  "upload_end arn x = Inr a \<longleftrightarrow> a = arn \<and> (\<exists>r. x = Inr r \<and> u_status r \<noteq> ''FAILED'')"
  by (cases x) (auto simp: upload_end_def)

lemma not_pending_succeeded:
  "\<not> pending x \<and> (\<exists>r. x = Inr r \<and> u_status r \<noteq> ''FAILED'') \<longleftrightarrow> has_status ''SUCCEEDED'' x"
  by (cases x) (auto simp: pending_def has_status_def)

lemma failed_exn_text:
  "u_message r = Some m \<Longrightarrow> failed_exn r = Exception (failed_prefix @ m)"
  "u_message r = None \<Longrightarrow> u_metadata r = Some d \<Longrightarrow> failed_exn r = Exception (failed_prefix @ d)"
  "u_message r = None \<Longrightarrow> u_metadata r = None \<Longrightarrow> failed_exn r = KeyError ''metadata''"
  by (simp_all add: failed_exn_def failure_text_def)

text \<open>
  C4. When the response to the HTTP PUT is not ok, \<^verbatim>\<open>upload_df_file\<close> raises an exception
  whose message ends with the reason of the response. When the PUT is ok and the first answer
  that is not pending has the status \<^verbatim>\<open>FAILED\<close>, it raises the exception for that answer,
  whose message ends with the message of the answer, or with its metadata when it has no
  message. And it returns an ARN if and only if the upload was created, the file opened, the
  PUT ok, the ARN is that of the created upload, and the first answer that is not pending
  has the status \<^verbatim>\<open>SUCCEEDED\<close>.
\<close>

theorem upload_df_file_outcomes:
  "(create_upload env = Inr r0 \<and> open_file env = Inr data \<and> put env = Inr resp \<and> \<not> ok resp
      \<longrightarrow> upload_df_file env unique file_name upload_type tr
            = Some (Inl (Exception (put_prefix @ reason resp)),
                    tr @ upload_start unique file_name upload_type r0))
   \<and> (create_upload env = Inr r0 \<and> open_file env = Inr data \<and> put env = Inr resp \<and> ok resp
        \<and> (\<forall>k<n. pending (observed r0 (get_upload env) k))
        \<and> observed r0 (get_upload env) n = Inr r \<and> u_status r = ''FAILED''
      \<longrightarrow> upload_df_file env unique file_name upload_type tr
            = Some (Inl (failed_exn r),
                    (tr @ upload_start unique file_name upload_type r0)
                      @ upload_rounds (u_arn r0) n)
          \<and> (\<forall>m. u_message r = Some m \<longrightarrow> failed_exn r = Exception (failed_prefix @ m))
          \<and> (\<forall>d. u_message r = None \<and> u_metadata r = Some d
                 \<longrightarrow> failed_exn r = Exception (failed_prefix @ d)))
   \<and> ((\<exists>tr'. upload_df_file env unique file_name upload_type tr = Some (Inr a, tr'))
        \<longleftrightarrow> (\<exists>r0 data resp n.
               create_upload env = Inr r0 \<and> open_file env = Inr data \<and> put env = Inr resp
             \<and> ok resp \<and> a = u_arn r0
             \<and> (\<forall>k<n. pending (observed r0 (get_upload env) k))
             \<and> has_status ''SUCCEEDED'' (observed r0 (get_upload env) n)))"
proof -
  let ?run = "upload_df_file env unique file_name upload_type tr"
  have i1: "create_upload env = Inr r0 \<and> open_file env = Inr data \<and> put env = Inr resp
      \<and> \<not> ok resp
      \<longrightarrow> ?run = Some (Inl (Exception (put_prefix @ reason resp)),
                    tr @ upload_start unique file_name upload_type r0)"
    by (simp add: upload_df_file_unfold)
  have stops: "upload_df_file env unique file_name upload_type tr
            = Some (upload_end (u_arn r0) (observed r0 (get_upload env) n),
                    (tr @ upload_start unique file_name upload_type r0)
                      @ upload_rounds (u_arn r0) n)"
    if c: "create_upload env = Inr r0" and d: "open_file env = Inr data"
      and p: "put env = Inr resp" and k: "ok resp"
      and pe: "\<forall>k<n. pending (observed r0 (get_upload env) k)"
      and np: "\<not> pending (observed r0 (get_upload env) n)" for r0 data resp n
  proof -
    from pe np have "\<forall>k<n. pending (observed r0 (\<lambda>k. get_upload env (0 + k)) k)"
      and "\<not> pending (observed r0 (\<lambda>k. get_upload env (0 + k)) n)" by simp_all
    then have "upload_poll (get_upload env) (u_arn r0) 0 r0
          (tr @ upload_start unique file_name upload_type r0)
       = Some (upload_end (u_arn r0) (observed r0 (\<lambda>k. get_upload env (0 + k)) n),
               (tr @ upload_start unique file_name upload_type r0) @ upload_rounds (u_arn r0) n)"
      by (rule upload_poll_stops)
    with k show ?thesis by (simp add: upload_df_file_unfold [OF c d p])
  qed
  have i2: "create_upload env = Inr r0 \<and> open_file env = Inr data \<and> put env = Inr resp \<and> ok resp
        \<and> (\<forall>k<n. pending (observed r0 (get_upload env) k))
        \<and> observed r0 (get_upload env) n = Inr r \<and> u_status r = ''FAILED''
      \<longrightarrow> ?run = Some (Inl (failed_exn r),
                    (tr @ upload_start unique file_name upload_type r0)
                      @ upload_rounds (u_arn r0) n)
          \<and> (\<forall>m. u_message r = Some m \<longrightarrow> failed_exn r = Exception (failed_prefix @ m))
          \<and> (\<forall>d. u_message r = None \<and> u_metadata r = Some d
                 \<longrightarrow> failed_exn r = Exception (failed_prefix @ d))"
  proof (rule impI)
    assume h: "create_upload env = Inr r0 \<and> open_file env = Inr data \<and> put env = Inr resp
        \<and> ok resp \<and> (\<forall>k<n. pending (observed r0 (get_upload env) k))
        \<and> observed r0 (get_upload env) n = Inr r \<and> u_status r = ''FAILED''"
    then have o: "observed r0 (get_upload env) n = Inr r" and f: "u_status r = ''FAILED''"
      by simp_all
    then have np: "\<not> pending (observed r0 (get_upload env) n)" by (simp add: pending_def)
    from h have c: "create_upload env = Inr r0" and d: "open_file env = Inr data"
      and p: "put env = Inr resp" and k: "ok resp"
      and pe: "\<forall>k<n. pending (observed r0 (get_upload env) k)"
      by blast+
    have "?run = Some (upload_end (u_arn r0) (observed r0 (get_upload env) n),
                    (tr @ upload_start unique file_name upload_type r0)
                      @ upload_rounds (u_arn r0) n)"
      using c d p k pe np by (rule stops)
    then have "?run = Some (Inl (failed_exn r),
                    (tr @ upload_start unique file_name upload_type r0)
                      @ upload_rounds (u_arn r0) n)"
      using o f by (simp add: upload_end_def)
    then show "?run = Some (Inl (failed_exn r),
                    (tr @ upload_start unique file_name upload_type r0)
                      @ upload_rounds (u_arn r0) n)
          \<and> (\<forall>m. u_message r = Some m \<longrightarrow> failed_exn r = Exception (failed_prefix @ m))
          \<and> (\<forall>d. u_message r = None \<and> u_metadata r = Some d
                 \<longrightarrow> failed_exn r = Exception (failed_prefix @ d))"
      by (simp add: failed_exn_text)
  qed
  have i3: "(\<exists>tr'. ?run = Some (Inr a, tr'))
        \<longleftrightarrow> (\<exists>r0 data resp n.
               create_upload env = Inr r0 \<and> open_file env = Inr data \<and> put env = Inr resp
             \<and> ok resp \<and> a = u_arn r0
             \<and> (\<forall>k<n. pending (observed r0 (get_upload env) k))
             \<and> has_status ''SUCCEEDED'' (observed r0 (get_upload env) n))"
  proof
    assume "\<exists>tr'. ?run = Some (Inr a, tr')"
    then obtain tr' where ret: "?run = Some (Inr a, tr')" by blast
    from ret obtain r0 data resp where
      c: "create_upload env = Inr r0" and d: "open_file env = Inr data"
      and p: "put env = Inr resp" and k: "ok resp"
      and loop: "upload_poll (get_upload env) (u_arn r0) 0 r0
           (tr @ upload_start unique file_name upload_type r0) = Some (Inr a, tr')"
      by (rule upload_df_file_returns)
    show "\<exists>r0 data resp n.
               create_upload env = Inr r0 \<and> open_file env = Inr data \<and> put env = Inr resp
             \<and> ok resp \<and> a = u_arn r0
             \<and> (\<forall>k<n. pending (observed r0 (get_upload env) k))
             \<and> has_status ''SUCCEEDED'' (observed r0 (get_upload env) n)"
    proof (cases rule: upload_poll_cases [of r0 "get_upload env" "u_arn r0"
          "tr @ upload_start unique file_name upload_type r0"])
      case forever
      with loop show ?thesis by simp
    next
      case (stops n)
      from stops(3) loop have "upload_end (u_arn r0) (observed r0 (get_upload env) n) = Inr a"
        by simp
      then have a: "a = u_arn r0"
        and "\<exists>r. observed r0 (get_upload env) n = Inr r \<and> u_status r \<noteq> ''FAILED''"
        by (simp_all add: upload_end_ok)
      with stops(2) have "has_status ''SUCCEEDED'' (observed r0 (get_upload env) n)"
        using not_pending_succeeded by blast
      with c d p k a stops(1) show ?thesis by blast
    qed
  next
    assume "\<exists>r0 data resp n.
               create_upload env = Inr r0 \<and> open_file env = Inr data \<and> put env = Inr resp
             \<and> ok resp \<and> a = u_arn r0
             \<and> (\<forall>k<n. pending (observed r0 (get_upload env) k))
             \<and> has_status ''SUCCEEDED'' (observed r0 (get_upload env) n)"
    then obtain r0 data resp n where
      c: "create_upload env = Inr r0" and d: "open_file env = Inr data"
      and p: "put env = Inr resp" and k: "ok resp" and a: "a = u_arn r0"
      and pe: "\<forall>k<n. pending (observed r0 (get_upload env) k)"
      and su: "has_status ''SUCCEEDED'' (observed r0 (get_upload env) n)"
      by blast
    from su have np: "\<not> pending (observed r0 (get_upload env) n)"
      and ok: "\<exists>r. observed r0 (get_upload env) n = Inr r \<and> u_status r \<noteq> ''FAILED''"
      using not_pending_succeeded by blast+
    from ok have "upload_end (u_arn r0) (observed r0 (get_upload env) n) = Inr (u_arn r0)"
      by (simp add: upload_end_ok)
    with stops [OF c d p k pe np] a
    have "?run = Some (Inr a, (tr @ upload_start unique file_name upload_type r0)
                      @ upload_rounds (u_arn r0) n)" by simp
    then show "\<exists>tr'. ?run = Some (Inr a, tr')" by blast
  qed
  from i1 i2 i3 show ?thesis by (intro conjI)
qed

theorem upload_df_file_outcomes_witness:
  "upload_df_file ((ready_upload ''arn:app'')\<lparr>put := Inr \<lparr>ok = False, reason = ''Forbidden''\<rparr>\<rparr>)
       ''u'' ''/build/app.apk'' ''ANDROID_APP'' []
     = Some (Inl (Exception (put_prefix @ ''Forbidden'')),
             [CreateUpload ''u_app.apk'' ''ANDROID_APP'', HttpPut ''https://upload/arn:app''])
   \<and> upload_df_file (slow_upload ''arn:app'' (upload_answer ''arn:app'' ''FAILED'' (Some ''bad package'')))
       ''u'' ''/build/app.apk'' ''ANDROID_APP'' []
     = Some (Inl (Exception (failed_prefix @ ''bad package'')),
             [CreateUpload ''u_app.apk'' ''ANDROID_APP'', HttpPut ''https://upload/arn:app'',
              Sleep 5, GetUpload ''arn:app'', Sleep 5, GetUpload ''arn:app''])
   \<and> (\<exists>tr'. upload_df_file (slow_upload ''arn:app'' (upload_answer ''arn:app'' ''SUCCEEDED'' None))
       ''u'' ''/build/app.apk'' ''ANDROID_APP'' [] = Some (Inr ''arn:app'', tr'))"
proof -
  let ?e1 = "(ready_upload ''arn:app'')\<lparr>put := Inr \<lparr>ok = False, reason = ''Forbidden''\<rparr>\<rparr>"
  let ?r1 = "\<lparr>u_arn = ''arn:app'', u_url = ''https://upload/'' @ ''arn:app'',
              u_status = ''SUCCEEDED'', u_message = None, u_metadata = None\<rparr>"
  let ?bad = "upload_answer ''arn:app'' ''FAILED'' (Some ''bad package'')"
  let ?good = "upload_answer ''arn:app'' ''SUCCEEDED'' None"
  let ?r0 = "upload_answer ''arn:app'' ''INITIALIZED'' None"
  let ?e2 = "slow_upload ''arn:app'' ?bad"
  let ?e3 = "slow_upload ''arn:app'' ?good"
  have st: "upload_start ''u'' ''/build/app.apk'' ''ANDROID_APP'' r
      = [CreateUpload ''u_app.apk'' ''ANDROID_APP'', HttpPut (u_url r)]" for r
    by (simp add: upload_start_def basename_def slash_def)
  have h1: "create_upload ?e1 = Inr ?r1 \<and> open_file ?e1 = Inr ''bytes''
      \<and> put ?e1 = Inr \<lparr>ok = False, reason = ''Forbidden''\<rparr>
      \<and> \<not> ok \<lparr>ok = False, reason = ''Forbidden''\<rparr>"
    by (simp add: ready_upload_def)
  note a = upload_df_file_outcomes [of ?e1 ?r1 "''bytes''" "\<lparr>ok = False, reason = ''Forbidden''\<rparr>"
      "''u''" "''/build/app.apk''" "''ANDROID_APP''" "[]",
      THEN conjunct1, THEN mp, OF h1]
  have h2: "create_upload ?e2 = Inr ?r0 \<and> open_file ?e2 = Inr ''bytes''
      \<and> put ?e2 = Inr \<lparr>ok = True, reason = ''OK''\<rparr> \<and> ok \<lparr>ok = True, reason = ''OK''\<rparr>
      \<and> (\<forall>k<2. pending (observed ?r0 (get_upload ?e2) k))
      \<and> observed ?r0 (get_upload ?e2) 2 = Inr ?bad \<and> u_status ?bad = ''FAILED''"
    by (simp add: slow_upload_def upload_answer_def observed_def pending_def
        less_Suc_eq numeral_2_eq_2 split: nat.split)
  note b = upload_df_file_outcomes [of ?e2 ?r0 "''bytes''" "\<lparr>ok = True, reason = ''OK''\<rparr>"
      "''u''" "''/build/app.apk''" "''ANDROID_APP''" "[]" 2 ?bad,
      THEN conjunct2, THEN conjunct1, THEN mp, OF h2]
  have h3: "\<exists>r0 data resp n.
               create_upload ?e3 = Inr r0 \<and> open_file ?e3 = Inr data \<and> put ?e3 = Inr resp
             \<and> ok resp \<and> ''arn:app'' = u_arn r0
             \<and> (\<forall>k<n. pending (observed r0 (get_upload ?e3) k))
             \<and> has_status ''SUCCEEDED'' (observed r0 (get_upload ?e3) n)"
  proof (intro exI conjI)
    show "create_upload ?e3 = Inr ?r0" by (simp add: slow_upload_def)
    show "open_file ?e3 = Inr ''bytes''" by (simp add: slow_upload_def)
    show "put ?e3 = Inr \<lparr>ok = True, reason = ''OK''\<rparr>" by (simp add: slow_upload_def)
    show "ok \<lparr>ok = True, reason = ''OK''\<rparr>" by simp
    show "''arn:app'' = u_arn ?r0" by (simp add: upload_answer_def)
    show "\<forall>k<2. pending (observed ?r0 (get_upload ?e3) k)"
      by (simp add: slow_upload_def upload_answer_def observed_def pending_def
          less_Suc_eq numeral_2_eq_2 split: nat.split)
    show "has_status ''SUCCEEDED'' (observed ?r0 (get_upload ?e3) 2)"
      by (simp add: slow_upload_def upload_answer_def observed_def has_status_def
          numeral_2_eq_2)
  qed
  note c = upload_df_file_outcomes [of ?e3 _ _ _ "''u''" "''/build/app.apk''"
      "''ANDROID_APP''" "[]" _ _ "''arn:app''",
      THEN conjunct2, THEN conjunct2, THEN iffD2, OF h3]
  from a have a': "upload_df_file ?e1 ''u'' ''/build/app.apk'' ''ANDROID_APP'' []
     = Some (Inl (Exception (put_prefix @ ''Forbidden'')),
             [CreateUpload ''u_app.apk'' ''ANDROID_APP'', HttpPut ''https://upload/arn:app''])"
    by (simp add: st)
  from b have b': "upload_df_file ?e2 ''u'' ''/build/app.apk'' ''ANDROID_APP'' []
     = Some (Inl (Exception (failed_prefix @ ''bad package'')),
             [CreateUpload ''u_app.apk'' ''ANDROID_APP'', HttpPut ''https://upload/arn:app'',
              Sleep 5, GetUpload ''arn:app'', Sleep 5, GetUpload ''arn:app''])"
    by (simp add: st upload_rounds_def upload_answer_def failed_exn_text numeral_2_eq_2)
  from a' b' c show ?thesis by (intro conjI)
qed

text \<open>
  C10. When the answer of \<^verbatim>\<open>create_upload\<close> has the status \<^verbatim>\<open>SUCCEEDED\<close> already,
  \<^verbatim>\<open>upload_df_file\<close> returns the ARN, and when it has the status \<^verbatim>\<open>FAILED\<close>, it raises the
  exception for it; in both cases the trace has only the \<^verbatim>\<open>create_upload\<close> request and the
  PUT: no pause and no \<^verbatim>\<open>get_upload\<close> request.
\<close>

theorem upload_initial_status:
  "(create_upload env = Inr r0 \<and> open_file env = Inr data \<and> put env = Inr resp \<and> ok resp
      \<and> u_status r0 = ''SUCCEEDED''
      \<longrightarrow> upload_df_file env unique file_name upload_type tr
            = Some (Inr (u_arn r0),
                    tr @ [CreateUpload (unique @ ''_'' @ basename file_name) upload_type,
                          HttpPut (u_url r0)]))
   \<and> (create_upload env = Inr r0 \<and> open_file env = Inr data \<and> put env = Inr resp \<and> ok resp
      \<and> u_status r0 = ''FAILED''
      \<longrightarrow> upload_df_file env unique file_name upload_type tr
            = Some (Inl (failed_exn r0),
                    tr @ [CreateUpload (unique @ ''_'' @ basename file_name) upload_type,
                          HttpPut (u_url r0)]))"
proof -
  have ends: "upload_df_file env unique file_name upload_type tr
       = Some (upload_end (u_arn r0) (Inr r0),
               tr @ upload_start unique file_name upload_type r0)"
    if "create_upload env = Inr r0" "open_file env = Inr data" "put env = Inr resp" "ok resp"
      "\<not> pending (Inr r0)"
    using that by (simp add: upload_df_file_unfold upload_poll_done)
  have i1: "create_upload env = Inr r0 \<and> open_file env = Inr data \<and> put env = Inr resp
      \<and> ok resp \<and> u_status r0 = ''SUCCEEDED''
      \<longrightarrow> upload_df_file env unique file_name upload_type tr
            = Some (Inr (u_arn r0),
                    tr @ [CreateUpload (unique @ ''_'' @ basename file_name) upload_type,
                          HttpPut (u_url r0)])"
    using ends by (simp add: pending_def upload_end_def upload_start_def)
  have i2: "create_upload env = Inr r0 \<and> open_file env = Inr data \<and> put env = Inr resp
      \<and> ok resp \<and> u_status r0 = ''FAILED''
      \<longrightarrow> upload_df_file env unique file_name upload_type tr
            = Some (Inl (failed_exn r0),
                    tr @ [CreateUpload (unique @ ''_'' @ basename file_name) upload_type,
                          HttpPut (u_url r0)])"
    using ends by (simp add: pending_def upload_end_def upload_start_def)
  from i1 i2 show ?thesis by (rule conjI)
qed

theorem upload_initial_status_witness:
  "upload_df_file (ready_upload ''arn:app'') ''u'' ''/build/app.apk'' ''ANDROID_APP'' []
     = Some (Inr ''arn:app'',
             [CreateUpload ''u_app.apk'' ''ANDROID_APP'', HttpPut ''https://upload/arn:app''])
   \<and> upload_df_file
       ((ready_upload ''arn:app'')
          \<lparr>create_upload := Inr (upload_answer ''arn:app'' ''FAILED'' (Some ''bad package''))\<rparr>)
       ''u'' ''/build/app.apk'' ''ANDROID_APP'' []
     = Some (Inl (Exception (failed_prefix @ ''bad package'')),
             [CreateUpload ''u_app.apk'' ''ANDROID_APP'', HttpPut ''https://upload/arn:app''])"
proof -
  let ?r1 = "\<lparr>u_arn = ''arn:app'', u_url = ''https://upload/'' @ ''arn:app'',
              u_status = ''SUCCEEDED'', u_message = None, u_metadata = None\<rparr>"
  let ?bad = "upload_answer ''arn:app'' ''FAILED'' (Some ''bad package'')"
  let ?e1 = "ready_upload ''arn:app''"
  let ?e2 = "(ready_upload ''arn:app'')\<lparr>create_upload := Inr ?bad\<rparr>"
  have h1: "create_upload ?e1 = Inr ?r1 \<and> open_file ?e1 = Inr ''bytes''
      \<and> put ?e1 = Inr \<lparr>ok = True, reason = ''OK''\<rparr> \<and> ok \<lparr>ok = True, reason = ''OK''\<rparr>
      \<and> u_status ?r1 = ''SUCCEEDED''"
    by (simp add: ready_upload_def)
  have h2: "create_upload ?e2 = Inr ?bad \<and> open_file ?e2 = Inr ''bytes''
      \<and> put ?e2 = Inr \<lparr>ok = True, reason = ''OK''\<rparr> \<and> ok \<lparr>ok = True, reason = ''OK''\<rparr>
      \<and> u_status ?bad = ''FAILED''"
    by (simp add: ready_upload_def upload_answer_def)
  note a = upload_initial_status [of ?e1 ?r1 "''bytes''" "\<lparr>ok = True, reason = ''OK''\<rparr>"
      "''u''" "''/build/app.apk''" "''ANDROID_APP''" "[]", THEN conjunct1, THEN mp, OF h1]
  note b = upload_initial_status [of ?e2 ?bad "''bytes''" "\<lparr>ok = True, reason = ''OK''\<rparr>"
      "''u''" "''/build/app.apk''" "''ANDROID_APP''" "[]", THEN conjunct2, THEN mp, OF h2]
  from a have a': "upload_df_file ?e1 ''u'' ''/build/app.apk'' ''ANDROID_APP'' []
     = Some (Inr ''arn:app'',
             [CreateUpload ''u_app.apk'' ''ANDROID_APP'', HttpPut ''https://upload/arn:app''])"
    by (simp add: basename_def slash_def)
  from b have b': "upload_df_file ?e2 ''u'' ''/build/app.apk'' ''ANDROID_APP'' []
     = Some (Inl (Exception (failed_prefix @ ''bad package'')),
             [CreateUpload ''u_app.apk'' ''ANDROID_APP'', HttpPut ''https://upload/arn:app''])"
    by (simp add: basename_def slash_def upload_answer_def failed_exn_text)
  from a' b' show ?thesis by (rule conjI)
qed

end
